theory Spec2Isabelle
  imports Main "HOL-Library.Word"
begin

unbundle bit_operations_syntax

section \<open>Data model\<close>

text \<open>
  The query bus of \<^verbatim>\<open>bus.go\<close>.  A Go interface value of type \<^verbatim>\<open>Query\<close> is either
  \<^verbatim>\<open>nil\<close> or a value with an \<^verbatim>\<open>ID()\<close>; the type assertion \<^verbatim>\<open>qry.(Cacheable)\<close>
  succeeds exactly when the value also has \<^verbatim>\<open>CacheKey()\<close> and \<^verbatim>\<open>CacheDuration()\<close>.
  A possibly-nil query is a \<open>Query option\<close>.  Instants and durations are integers
  (nanoseconds).  The \<^verbatim>\<open>context.Context\<close> argument is only passed through by the bus
  and is left out.
\<close>

type_synonym bytes = string
type_synonym instant = int

record Cacheable =
  CacheKey :: bytes
  CacheDuration :: int

record Query =
  ID :: bytes
  cacheable :: "Cacheable option"

datatype error =
    InvalidQueryError
  | BusNotInitializedError
  | BusIsShuttingDownError
  | ErrorNoQueryHandlersFound Query
  | ErrorQueryTimedOut Query
  | HandlerError string

text \<open>
  Modelled from the spec: the \<^verbatim>\<open>Result\<close> container (its source file is not part of
  the sources at hand).  The spec lists an accumulated value set, a "handled" flag, a
  "propagation stopped" flag and the cache metadata (served from cache, stored at,
  expiry).  The two flags are read by \<^verbatim>\<open>isHandled()\<close> and \<^verbatim>\<open>propagationStopped()\<close>; a
  handler writes them through the methods of the result, where contributing data sets
  "handled" and an explicit completion sets both.
\<close>

record Result =
  res_data :: "string list"
  res_handled :: bool
  res_stopped :: bool
  res_fromCache :: bool
  res_cachedAt :: "instant option"
  res_expiresAt :: "instant option"

text \<open>Modelled from the spec: \<^verbatim>\<open>newResult()\<close>, a fresh empty result.\<close>

definition newResult :: Result where
  "newResult = \<lparr>res_data = [], res_handled = False, res_stopped = False,
     res_fromCache = False, res_cachedAt = None, res_expiresAt = None\<rparr>"

text \<open>Modelled from the spec: \<^verbatim>\<open>newCacheableResult(qry)\<close>, a fresh empty result for a
  cacheable query.\<close>

definition newCacheableResult :: "Query \<Rightarrow> Result" where
  "newCacheableResult qry = newResult"

text \<open>Modelled from the spec: \<^verbatim>\<open>res.isHandled()\<close> reads the "handled" flag.\<close>

definition isHandled :: "Result \<Rightarrow> bool" where
  "isHandled res = res_handled res"

text \<open>Modelled from the spec: \<^verbatim>\<open>res.propagationStopped()\<close> reads the "propagation
  stopped" flag.\<close>

definition propagationStopped :: "Result \<Rightarrow> bool" where
  "propagationStopped res = res_stopped res"

text \<open>Modelled from the spec: \<^verbatim>\<open>res.loadedFromCache()\<close> marks the result as served from
  cache.\<close>

definition loadedFromCache :: "Result \<Rightarrow> Result" where
  "loadedFromCache res = res\<lparr>res_fromCache := True\<rparr>"

text \<open>Modelled from the spec: \<^verbatim>\<open>res.expires(t)\<close> records the expiry instant.\<close>

definition expires :: "Result \<Rightarrow> instant \<Rightarrow> Result" where
  "expires res t = res\<lparr>res_expiresAt := Some t\<rparr>"

text \<open>Modelled from the spec: \<^verbatim>\<open>res.cached(at)\<close> marks the result as stored in a cache at
  the instant \<open>at\<close>.\<close>

definition cached :: "Result \<Rightarrow> instant \<Rightarrow> Result" where
  "cached res at = res\<lparr>res_cachedAt := Some at\<rparr>"

text \<open>
  Modelled from the spec: the \<^verbatim>\<open>IteratorResult\<close> handle of a streaming query (its source
  file is not part of the sources at hand): the items yielded so far, a "handled" flag, a
  "propagation stopped" flag and a closed/open flag.
\<close>

record IteratorResult =
  it_items :: "string list"
  it_handled :: bool
  it_stopped :: bool
  it_closed :: bool

text \<open>Modelled from the spec: \<^verbatim>\<open>newIteratorResult(buf)\<close>, a fresh open handle.\<close>

definition newIteratorResult :: "int \<Rightarrow> IteratorResult" where
  "newIteratorResult buf = \<lparr>it_items = [], it_handled = False, it_stopped = False,
     it_closed = False\<rparr>"

text \<open>Modelled from the spec: \<^verbatim>\<open>isHandled()\<close> and \<^verbatim>\<open>propagationStopped()\<close> of an
  iterator result read its flags.\<close>

definition iter_isHandled :: "IteratorResult \<Rightarrow> bool" where
  "iter_isHandled res = it_handled res"

definition iter_propagationStopped :: "IteratorResult \<Rightarrow> bool" where
  "iter_propagationStopped res = it_stopped res"

text \<open>Modelled from the spec: \<^verbatim>\<open>res.close()\<close> closes the handle; closing is idempotent.\<close>

definition close :: "IteratorResult \<Rightarrow> IteratorResult" where
  "close res = res\<lparr>it_closed := True\<rparr>"

text \<open>
  The collaborators are interface values.  Each carries an identity (which value it is)
  and, for every method with a result, the response as a function of the arguments of the
  call.  A handler receives a pointer to the result and may change it, so its response is
  the returned error together with the result after the call.
\<close>

record Handler =
  hdl_id :: nat
  hdl_Handle :: "Query \<Rightarrow> Result \<Rightarrow> error option \<times> Result"

record IteratorHandler =
  ihdl_id :: nat
  ihdl_Handle :: "Query \<Rightarrow> IteratorResult \<Rightarrow> error option \<times> IteratorResult"

type_synonym ErrorHandler = nat

record CacheAdapter =
  adp_id :: nat
  adp_Set :: "Query \<Rightarrow> Result \<Rightarrow> bool"
  adp_Get :: "Query \<Rightarrow> Result option"

text \<open>
  The calls the bus makes on its collaborators, in the order it makes them: \<open>EvHandle\<close>
  is \<^verbatim>\<open>Handler.Handle\<close>, \<open>EvIterHandle\<close> is \<^verbatim>\<open>IteratorHandler.Handle\<close>, \<open>EvError\<close> is
  \<^verbatim>\<open>ErrorHandler.Handle(ctx, qry, err)\<close>, and \<open>EvGet\<close>, \<open>EvSet\<close>, \<open>EvShutdown\<close> are the
  methods of a \<^verbatim>\<open>CacheAdapter\<close>.  Every function of the bus returns the calls it made.
\<close>

datatype event =
    EvHandle nat
  | EvIterHandle nat
  | EvError ErrorHandler "Query option" error
  | EvGet nat
  | EvSet nat
  | EvShutdown nat

record pendingIteratorQuery =
  pen_qry :: Query
  pen_res :: IteratorResult

text \<open>
  A Go channel of \<^verbatim>\<open>*pendingIteratorQuery\<close>: the \<^verbatim>\<open>nil\<close> channel, or a channel made
  with a capacity, holding the elements sent and not yet received, oldest first (a \<^verbatim>\<open>nil\<close>
  pointer is \<open>None\<close>).  \<^verbatim>\<open>make\<close> panics on a negative capacity.  A send or a receive on
  the \<^verbatim>\<open>nil\<close> channel blocks forever, a send blocks while the buffer is full, a receive
  while it is empty; a blocked operation is \<open>None\<close>.  An unbuffered channel hands an element
  over at the moment the receiver takes it; here the element rests in the list between the
  send and the receive, so that every execution of the code is one of the model.
\<close>

datatype channel = NilChan | Chan int "pendingIteratorQuery option list"

definition make_chan :: "int \<Rightarrow> channel option" where
  "make_chan n = (if n < 0 then None else Some (Chan n []))"

fun send :: "channel \<Rightarrow> pendingIteratorQuery option \<Rightarrow> channel option" where
  "send NilChan x = None"
| "send (Chan n buf) x = (if int (length buf) < max 1 n then Some (Chan n (buf @ [x])) else None)"

fun recv :: "channel \<Rightarrow> (pendingIteratorQuery option \<times> channel) option" where
  "recv NilChan = None"
| "recv (Chan n []) = None"
| "recv (Chan n (x # xs)) = Some (x, Chan n xs)"

fun buffered :: "channel \<Rightarrow> pendingIteratorQuery option list" where
  "buffered NilChan = []"
| "buffered (Chan n buf) = buf"

text \<open>
  The \<^verbatim>\<open>Bus\<close> struct.  The three \<^verbatim>\<open>*uint32\<close> cells are 32-bit words.  The channel
  \<^verbatim>\<open>closed\<close> is unbuffered: a send on it and the receive happen together, so it holds
  nothing and has no field here.
\<close>

record Bus =
  iteratorWorkerPoolSize :: int
  iteratorQueueBuffer :: int
  iteratorResultBuffer :: int
  initialized :: "32 word"
  shuttingDown :: "32 word"
  iteratorWorkers :: "32 word"
  handlers :: "Handler list"
  iteratorHandlers :: "IteratorHandler list"
  errorHandlers :: "ErrorHandler list"
  cacheAdapters :: "CacheAdapter list"
  iteratorQueryQueue :: channel

section \<open>Construction and setters\<close>

text \<open>\<^verbatim>\<open>NewBus\<close>: \<open>procs\<close> is the value of \<^verbatim>\<open>runtime.GOMAXPROCS(0)\<close> and \<open>mem\<close> the adapter
  that \<^verbatim>\<open>NewMemoryCacheAdapter()\<close> returns.\<close>

definition NewBus :: "int \<Rightarrow> CacheAdapter \<Rightarrow> Bus" where
  "NewBus procs mem = \<lparr>
     iteratorWorkerPoolSize = procs,
     iteratorQueueBuffer = 100,
     iteratorResultBuffer = 0,
     initialized = 0,
     shuttingDown = 0,
     iteratorWorkers = 0,
     handlers = [],
     iteratorHandlers = [],
     errorHandlers = [],
     cacheAdapters = [mem],
     iteratorQueryQueue = NilChan\<rparr>"

definition Handlers :: "Bus \<Rightarrow> Handler list \<Rightarrow> Bus" where
  "Handlers bus hdls = bus\<lparr>handlers := hdls\<rparr>"

definition ErrorHandlers :: "Bus \<Rightarrow> ErrorHandler list \<Rightarrow> Bus" where
  "ErrorHandlers bus hdls = bus\<lparr>errorHandlers := hdls\<rparr>"

definition CacheAdapters :: "Bus \<Rightarrow> CacheAdapter list \<Rightarrow> Bus \<times> event list" where
  "CacheAdapters bus adps =
     (bus\<lparr>cacheAdapters := adps\<rparr>, map (\<lambda>adp. EvShutdown (adp_id adp)) (cacheAdapters bus))"

definition isInitialized :: "Bus \<Rightarrow> bool" where
  "isInitialized bus = (initialized bus = 1)"

definition isShuttingDown :: "Bus \<Rightarrow> bool" where
  "isShuttingDown bus = (shuttingDown bus = 1)"

definition IteratorWorkerPoolSize :: "Bus \<Rightarrow> int \<Rightarrow> Bus" where
  "IteratorWorkerPoolSize bus workerPoolSize =
     (if \<not> isInitialized bus then bus\<lparr>iteratorWorkerPoolSize := workerPoolSize\<rparr> else bus)"

definition IteratorQueueBuffer :: "Bus \<Rightarrow> int \<Rightarrow> Bus" where
  "IteratorQueueBuffer bus buf =
     (if \<not> isInitialized bus then bus\<lparr>iteratorQueueBuffer := buf\<rparr> else bus)"

definition IteratorResultBuffer :: "Bus \<Rightarrow> int \<Rightarrow> Bus" where
  "IteratorResultBuffer bus buf = bus\<lparr>iteratorResultBuffer := buf\<rparr>"

section \<open>Error fan-out and validation\<close>

definition error :: "Bus \<Rightarrow> Query option \<Rightarrow> error \<Rightarrow> event list" where
  "error bus qry err = map (\<lambda>errHdl. EvError errHdl qry err) (errorHandlers bus)"

definition isValid :: "Bus \<Rightarrow> Query option \<Rightarrow> error option \<times> event list" where
  "isValid bus qry =
     (case qry of
        None \<Rightarrow> (Some InvalidQueryError, error bus qry InvalidQueryError)
      | Some q \<Rightarrow> (None, []))"

definition isIteratorValid :: "Bus \<Rightarrow> Query option \<Rightarrow> error option \<times> event list" where
  "isIteratorValid bus qry =
     (case isValid bus qry of
        (Some err, evs) \<Rightarrow> (Some err, evs)
      | (None, evs) \<Rightarrow>
          if \<not> isInitialized bus
          then (Some BusNotInitializedError, evs @ error bus qry BusNotInitializedError)
          else if isShuttingDown bus
          then (Some BusIsShuttingDownError, evs @ error bus qry BusIsShuttingDownError)
          else (None, evs))"

section \<open>Synchronous dispatch\<close>

text \<open>
  \<^verbatim>\<open>handleCache\<close>.  The loop body is \<^verbatim>\<open>cached = cached || adp.Set(ctx, qry, res)\<close>: Go's
  \<^verbatim>\<open>||\<close> evaluates its right operand only when the left one is false, so \<^verbatim>\<open>Set\<close> is
  called only while \<^verbatim>\<open>cached\<close> is still false.  \<open>now\<close> is the value of \<^verbatim>\<open>time.Now()\<close>.
\<close>

fun handleCache_loop :: "CacheAdapter list \<Rightarrow> Query \<Rightarrow> Result \<Rightarrow> bool \<Rightarrow> bool \<times> event list" where
  "handleCache_loop [] qry res c = (c, [])"
| "handleCache_loop (adp # adps) qry res c =
     (if c then handleCache_loop adps qry res True
      else (case handleCache_loop adps qry res (adp_Set adp qry res) of
              (c', evs) \<Rightarrow> (c', EvSet (adp_id adp) # evs)))"

definition handleCache :: "Bus \<Rightarrow> instant \<Rightarrow> Query \<Rightarrow> Result \<Rightarrow> Result \<times> event list" where
  "handleCache bus now qry res =
     (case cacheable qry of
        None \<Rightarrow> (res, [])
      | Some cq \<Rightarrow>
          if CacheDuration cq > 0
          then (let at = now;
                    res1 = expires res (at + CacheDuration cq)
                in case handleCache_loop (cacheAdapters bus) qry res1 False of
                     (c, evs) \<Rightarrow> (if c then cached res1 at else res1, evs))
          else (res, []))"

text \<open>
  \<^verbatim>\<open>query\<close>.  \<open>query_after\<close> is the code after the loop; \<open>query_loop\<close> is the loop, which
  leaves by \<^verbatim>\<open>return err\<close> on a handler error, and reaches the code after the loop on
  \<^verbatim>\<open>break\<close> and at the end of the list.
\<close>

definition query_after :: "Bus \<Rightarrow> instant \<Rightarrow> Query \<Rightarrow> Result \<Rightarrow> error option \<times> Result \<times> event list" where
  "query_after bus now qry res =
     (if \<not> isHandled res
      then (let err = ErrorNoQueryHandlersFound qry
            in (Some err, res, error bus (Some qry) err))
      else (case handleCache bus now qry res of (res', evs) \<Rightarrow> (None, res', evs)))"

fun query_loop :: "Bus \<Rightarrow> instant \<Rightarrow> Handler list \<Rightarrow> Query \<Rightarrow> Result \<Rightarrow> error option \<times> Result \<times> event list" where
  "query_loop bus now [] qry res = query_after bus now qry res"
| "query_loop bus now (hdl # hdls) qry res =
     (case hdl_Handle hdl qry res of
        (Some err, res') \<Rightarrow> (Some err, res', EvHandle (hdl_id hdl) # error bus (Some qry) err)
      | (None, res') \<Rightarrow>
          (case (if propagationStopped res' then query_after bus now qry res'
                 else query_loop bus now hdls qry res') of
             (e, r, evs) \<Rightarrow> (e, r, EvHandle (hdl_id hdl) # evs)))"

definition query :: "Bus \<Rightarrow> instant \<Rightarrow> Query \<Rightarrow> Result \<Rightarrow> error option \<times> Result \<times> event list" where
  "query bus now qry res = query_loop bus now (handlers bus) qry res"

text \<open>\<^verbatim>\<open>result\<close>: the read path of the cache.\<close>

fun result_loop :: "CacheAdapter list \<Rightarrow> Query \<Rightarrow> Result option \<times> event list" where
  "result_loop [] qry = (None, [])"
| "result_loop (adp # adps) qry =
     (case adp_Get adp qry of
        Some res \<Rightarrow> (Some (loadedFromCache res), [EvGet (adp_id adp)])
      | None \<Rightarrow> (case result_loop adps qry of (r, evs) \<Rightarrow> (r, EvGet (adp_id adp) # evs)))"

definition result :: "Bus \<Rightarrow> Query \<Rightarrow> Result \<times> bool \<times> event list" where
  "result bus qry =
     (case cacheable qry of
        Some cq \<Rightarrow>
          (case result_loop (cacheAdapters bus) qry of
             (Some res, evs) \<Rightarrow> (res, True, evs)
           | (None, evs) \<Rightarrow> (newCacheableResult qry, False, evs))
      | None \<Rightarrow> (newResult, False, []))"

text \<open>\<^verbatim>\<open>Query\<close> returns \<^verbatim>\<open>(*Result, error)\<close>; a \<^verbatim>\<open>nil\<close> result pointer is \<open>None\<close>.\<close>

definition Query :: "Bus \<Rightarrow> instant \<Rightarrow> Query option \<Rightarrow> Result option \<times> error option \<times> event list" where
  "Query bus now qry =
     (case isValid bus qry of
        (Some err, evs) \<Rightarrow> (None, Some err, evs)
      | (None, evs) \<Rightarrow>
          (case qry of
             None \<Rightarrow> (None, Some InvalidQueryError, evs)
           | Some q \<Rightarrow>
               (case result bus q of
                  (res, True, evs1) \<Rightarrow> (Some res, None, evs @ evs1)
                | (res, False, evs1) \<Rightarrow>
                    (case query bus now q res of
                       (err, res', evs2) \<Rightarrow> (Some res', err, evs @ evs1 @ evs2)))))"

section \<open>Streaming dispatch\<close>

text \<open>\<^verbatim>\<open>iteratorQuery\<close>: here both a handler error and "propagation stopped" leave by
  \<^verbatim>\<open>return\<close>, so the check after the loop is reached only at the end of the list.\<close>

fun iteratorQuery_loop :: "Bus \<Rightarrow> IteratorHandler list \<Rightarrow> Query \<Rightarrow> IteratorResult \<Rightarrow> IteratorResult \<times> event list" where
  "iteratorQuery_loop bus [] qry res =
     (if \<not> iter_isHandled res
      then (res, error bus (Some qry) (ErrorNoQueryHandlersFound qry))
      else (res, []))"
| "iteratorQuery_loop bus (hdl # hdls) qry res =
     (case ihdl_Handle hdl qry res of
        (Some err, res') \<Rightarrow> (res', EvIterHandle (ihdl_id hdl) # error bus (Some qry) err)
      | (None, res') \<Rightarrow>
          if iter_propagationStopped res' then (res', [EvIterHandle (ihdl_id hdl)])
          else (case iteratorQuery_loop bus hdls qry res' of
                  (r, evs) \<Rightarrow> (r, EvIterHandle (ihdl_id hdl) # evs)))"

definition iteratorQuery :: "Bus \<Rightarrow> Query \<Rightarrow> IteratorResult \<Rightarrow> IteratorResult \<times> event list" where
  "iteratorQuery bus qry res = iteratorQuery_loop bus (iteratorHandlers bus) qry res"

text \<open>
  The body of the loop of \<^verbatim>\<open>iteratorWorker\<close> for a pending query that is not \<^verbatim>\<open>nil\<close>.
  \<open>attached\<close> is what \<^verbatim>\<open>penQry.res.waitListener(iteratorListenerTimeout)\<close> returns: whether
  a consumer attached to the iterator result within the timeout of one second.
\<close>

definition iteratorListenerTimeout :: int where
  "iteratorListenerTimeout = 1000000000"

definition iteratorWorker_body :: "Bus \<Rightarrow> pendingIteratorQuery \<Rightarrow> bool \<Rightarrow> IteratorResult \<times> event list" where
  "iteratorWorker_body bus penQry attached =
     (if attached
      then (case iteratorQuery bus (pen_qry penQry) (pen_res penQry) of
              (res', evs) \<Rightarrow> (close res', evs))
      else (pen_res penQry,
            error bus (Some (pen_qry penQry)) (ErrorQueryTimedOut (pen_qry penQry))))"

section \<open>The worker pool and the shutdown drain\<close>

text \<open>
  \<^verbatim>\<open>atomic.CompareAndSwapUint32(cell, old, new)\<close>: the new content of the cell and whether
  the swap happened.
\<close>

definition CompareAndSwapUint32 :: "32 word \<Rightarrow> 32 word \<Rightarrow> 32 word \<Rightarrow> 32 word \<times> bool" where
  "CompareAndSwapUint32 cell old new = (if cell = old then (new, True) else (cell, False))"

definition initialize :: "Bus \<Rightarrow> Bus \<times> bool" where
  "initialize bus =
     (case CompareAndSwapUint32 (initialized bus) 0 1 of
        (v, swapped) \<Rightarrow> (bus\<lparr>initialized := v\<rparr>, swapped))"

definition iteratorWorkerUp :: "Bus \<Rightarrow> Bus" where
  "iteratorWorkerUp bus = bus\<lparr>iteratorWorkers := iteratorWorkers bus + 1\<rparr>"

definition iteratorWorkerDown :: "Bus \<Rightarrow> Bus" where
  "iteratorWorkerDown bus = bus\<lparr>iteratorWorkers := iteratorWorkers bus + NOT 0\<rparr>"

definition enqueueIteratorQuery :: "Bus \<Rightarrow> pendingIteratorQuery \<Rightarrow> Bus option" where
  "enqueueIteratorQuery bus penQry =
     (case send (iteratorQueryQueue bus) (Some penQry) of
        None \<Rightarrow> None
      | Some ch \<Rightarrow> Some (bus\<lparr>iteratorQueryQueue := ch\<rparr>))"

text \<open>
  The goroutines.  A worker is blocked in \<^verbatim>\<open>range qryQ\<close> (\<open>WReceive\<close>), has left the loop
  and is blocked in \<^verbatim>\<open>closed <- true\<close> (\<open>WSignal\<close>), or has returned (\<open>WExited\<close>).  The
  goroutine that won the compare-and-swap of \<^verbatim>\<open>Shutdown\<close> executes \<^verbatim>\<open>shutdown\<close>; \<open>sd\<close> is
  the statement it is about to execute: the loop condition (\<open>SdTest\<close>), the send of
  \<^verbatim>\<open>nil\<close> (\<open>SdSend\<close>), the receive from \<^verbatim>\<open>closed\<close> (\<open>SdRecv\<close>), \<^verbatim>\<open>iteratorWorkerDown\<close>
  (\<open>SdDown\<close>), the loop over the cache adapters (\<open>SdAdapters\<close>), and the two final
  compare-and-swaps (\<open>SdResetInit\<close>, \<open>SdResetShut\<close>); \<open>SdIdle\<close> when no goroutine executes
  \<^verbatim>\<open>shutdown\<close>.  A goroutine that won the compare-and-swap of
  \<^verbatim>\<open>InitializeIteratorHandlers\<close> executes the statements after it, and \<open>inits\<close> holds, for
  each of them in the order of their compare-and-swaps, the statement it is about to
  execute: the assignment of the handlers (\<open>IniHandlers\<close>), the \<^verbatim>\<open>make\<close> of the queue
  (\<open>IniQueue\<close>), the loop condition with the loop variable \<open>i\<close> (\<open>IniTest i\<close>),
  \<^verbatim>\<open>iteratorWorkerUp\<close> (\<open>IniUp i\<close>) and the \<^verbatim>\<open>go\<close> statement (\<open>IniGo i\<close>); \<open>IniDone\<close> when it
  has returned.  \<open>inflight\<close> are the callers of \<^verbatim>\<open>IteratorQuery\<close> that have passed
  \<^verbatim>\<open>isIteratorValid\<close> and have not yet sent on the queue; \<open>served\<close> are the iterator
  results as the workers left them; \<open>trace\<close> are the calls made on collaborators so far.
\<close>

datatype worker = WReceive | WSignal | WExited

datatype shutdown_pc =
  SdIdle | SdTest | SdSend | SdRecv | SdDown | SdAdapters | SdResetInit | SdResetShut

datatype init_pc =
  IniHandlers "IteratorHandler list" | IniQueue | IniTest nat | IniUp nat | IniGo nat | IniDone

record System =
  busOf :: Bus
  pool :: "worker list"
  sd :: shutdown_pc
  inits :: "init_pc list"
  inflight :: "pendingIteratorQuery list"
  served :: "IteratorResult list"
  trace :: "event list"

definition start :: "int \<Rightarrow> CacheAdapter \<Rightarrow> System" where
  "start procs mem = \<lparr>busOf = NewBus procs mem, pool = [], sd = SdIdle, inits = [], inflight = [],
     served = [], trace = []\<rparr>"

text \<open>
  \<^verbatim>\<open>InitializeIteratorHandlers\<close>: the caller that wins the compare-and-swap of
  \<^verbatim>\<open>initialize\<close> goes on to execute the body; any other caller returns at once.
\<close>

definition InitializeIteratorHandlers :: "System \<Rightarrow> IteratorHandler list \<Rightarrow> System" where
  "InitializeIteratorHandlers s hdls =
     (case initialize (busOf s) of
        (bus, True) \<Rightarrow> s\<lparr>busOf := bus, inits := inits s @ [IniHandlers hdls]\<rparr>
      | (bus, False) \<Rightarrow> s)"

text \<open>
  One statement of the body of \<^verbatim>\<open>InitializeIteratorHandlers\<close>, executed by the \<open>j\<close>-th
  goroutine of \<open>inits\<close>.  The loop condition reads \<^verbatim>\<open>bus.iteratorWorkerPoolSize\<close> each
  time.  The result is \<open>None\<close> when \<^verbatim>\<open>make\<close> panics, and for a goroutine that has
  returned.  The \<^verbatim>\<open>go\<close> statement gives the worker the channel that is the queue of the
  bus at that moment; in the model every worker reads the queue of the bus, which is the
  channel it was given as long as the bus is not initialised again while a worker of an
  earlier initialisation is running.
\<close>

definition InitializeIteratorHandlers_body :: "System \<Rightarrow> nat \<Rightarrow> System option" where
  "InitializeIteratorHandlers_body s j =
     (if j < length (inits s)
      then (let bus = busOf s in
            case inits s ! j of
              IniHandlers hdls \<Rightarrow>
                Some (s\<lparr>busOf := bus\<lparr>iteratorHandlers := hdls\<rparr>,
                        inits := (inits s)[j := IniQueue]\<rparr>)
            | IniQueue \<Rightarrow>
                (case make_chan (iteratorQueueBuffer bus) of
                   None \<Rightarrow> None
                 | Some ch \<Rightarrow>
                     Some (s\<lparr>busOf := bus\<lparr>iteratorQueryQueue := ch\<rparr>,
                             inits := (inits s)[j := IniTest 0]\<rparr>))
            | IniTest i \<Rightarrow>
                Some (s\<lparr>inits := (inits s)[j := (if int i < iteratorWorkerPoolSize bus
                                                     then IniUp i else IniDone)]\<rparr>)
            | IniUp i \<Rightarrow>
                Some (s\<lparr>busOf := iteratorWorkerUp bus, inits := (inits s)[j := IniGo i]\<rparr>)
            | IniGo i \<Rightarrow>
                Some (s\<lparr>pool := pool s @ [WReceive], inits := (inits s)[j := IniTest (Suc i)]\<rparr>)
            | IniDone \<Rightarrow> None)
      else None)"

text \<open>\<^verbatim>\<open>Shutdown\<close>: the caller that wins the compare-and-swap goes on to execute
  \<^verbatim>\<open>shutdown\<close>; any other caller returns at once.\<close>

definition Shutdown :: "System \<Rightarrow> System" where
  "Shutdown s =
     (case CompareAndSwapUint32 (shuttingDown (busOf s)) 0 1 of
        (v, True) \<Rightarrow> s\<lparr>busOf := (busOf s)\<lparr>shuttingDown := v\<rparr>, sd := SdTest\<rparr>
      | (v, False) \<Rightarrow> s)"

text \<open>One statement of \<^verbatim>\<open>shutdown\<close>.  The receive from \<^verbatim>\<open>closed\<close> is not taken here: it
  happens together with the send of a worker, in \<open>acknowledge\<close>.\<close>

definition shutdown :: "System \<Rightarrow> System option" where
  "shutdown s =
     (let bus = busOf s in
      case sd s of
        SdIdle \<Rightarrow> None
      | SdTest \<Rightarrow> Some (s\<lparr>sd := (if iteratorWorkers bus > 0 then SdSend else SdAdapters)\<rparr>)
      | SdSend \<Rightarrow>
          (case send (iteratorQueryQueue bus) None of
             None \<Rightarrow> None
           | Some ch \<Rightarrow> Some (s\<lparr>busOf := bus\<lparr>iteratorQueryQueue := ch\<rparr>, sd := SdRecv\<rparr>))
      | SdRecv \<Rightarrow> None
      | SdDown \<Rightarrow> Some (s\<lparr>busOf := iteratorWorkerDown bus, sd := SdTest\<rparr>)
      | SdAdapters \<Rightarrow>
          Some (s\<lparr>trace := trace s @ map (\<lambda>adp. EvShutdown (adp_id adp)) (cacheAdapters bus),
                  sd := SdResetInit\<rparr>)
      | SdResetInit \<Rightarrow>
          Some (s\<lparr>busOf := bus\<lparr>initialized := fst (CompareAndSwapUint32 (initialized bus) 1 0)\<rparr>,
                  sd := SdResetShut\<rparr>)
      | SdResetShut \<Rightarrow>
          Some (s\<lparr>busOf := bus\<lparr>shuttingDown := fst (CompareAndSwapUint32 (shuttingDown bus) 1 0)\<rparr>,
                  sd := SdIdle\<rparr>))"

text \<open>One iteration of the loop of \<^verbatim>\<open>iteratorWorker\<close> for the worker \<open>i\<close>: it receives the
  next element of the queue; on \<^verbatim>\<open>nil\<close> it leaves the loop, otherwise it runs the body.\<close>

definition iteratorWorker :: "System \<Rightarrow> nat \<Rightarrow> bool \<Rightarrow> System option" where
  "iteratorWorker s i attached =
     (if i < length (pool s) \<and> pool s ! i = WReceive
      then (case recv (iteratorQueryQueue (busOf s)) of
              None \<Rightarrow> None
            | Some (None, ch) \<Rightarrow>
                Some (s\<lparr>busOf := (busOf s)\<lparr>iteratorQueryQueue := ch\<rparr>,
                        pool := (pool s)[i := WSignal]\<rparr>)
            | Some (Some penQry, ch) \<Rightarrow>
                (case iteratorWorker_body (busOf s) penQry attached of
                   (res, evs) \<Rightarrow>
                     Some (s\<lparr>busOf := (busOf s)\<lparr>iteratorQueryQueue := ch\<rparr>,
                             served := served s @ [res],
                             trace := trace s @ evs\<rparr>)))
      else None)"

text \<open>The send \<^verbatim>\<open>closed <- true\<close> of the worker \<open>i\<close> meets the receive \<^verbatim>\<open><-bus.closed\<close> of
  \<^verbatim>\<open>shutdown\<close>; the worker returns.\<close>

definition acknowledge :: "System \<Rightarrow> nat \<Rightarrow> System option" where
  "acknowledge s i =
     (if i < length (pool s) \<and> pool s ! i = WSignal \<and> sd s = SdRecv
      then Some (s\<lparr>pool := (pool s)[i := WExited], sd := SdDown\<rparr>)
      else None)"

text \<open>\<^verbatim>\<open>IteratorQuery\<close> in its two halves: the validation, and the send on the queue by
  the \<open>k\<close>-th caller that has passed it.\<close>

definition IteratorQuery_validate :: "System \<Rightarrow> Query option \<Rightarrow> System" where
  "IteratorQuery_validate s qry =
     (case isIteratorValid (busOf s) qry of
        (Some err, evs) \<Rightarrow> s\<lparr>trace := trace s @ evs\<rparr>
      | (None, evs) \<Rightarrow>
          (case qry of
             None \<Rightarrow> s\<lparr>trace := trace s @ evs\<rparr>
           | Some q \<Rightarrow>
               s\<lparr>trace := trace s @ evs,
                 inflight := inflight s @
                   [\<lparr>pen_qry = q, pen_res = newIteratorResult (iteratorResultBuffer (busOf s))\<rparr>]\<rparr>))"

definition IteratorQuery_enqueue :: "System \<Rightarrow> nat \<Rightarrow> System option" where
  "IteratorQuery_enqueue s k =
     (if k < length (inflight s)
      then (case enqueueIteratorQuery (busOf s) (inflight s ! k) of
              None \<Rightarrow> None
            | Some bus \<Rightarrow>
                Some (s\<lparr>busOf := bus, inflight := take k (inflight s) @ drop (Suc k) (inflight s)\<rparr>))
      else None)"

text \<open>
  What can happen next: a call of the public interface by some goroutine, or one step
  of a goroutine of the bus.  A setter is a single assignment and so one step (the two
  that test \<^verbatim>\<open>isInitialized()\<close> first are taken together with their test).  \<open>step\<close>
  is \<open>None\<close> when the step cannot be taken now (the goroutine is blocked or has
  returned) or panics.
\<close>

datatype action =
    CallHandlers "Handler list"
  | CallErrorHandlers "ErrorHandler list"
  | CallCacheAdapters "CacheAdapter list"
  | CallIteratorWorkerPoolSize int
  | CallIteratorQueueBuffer int
  | CallIteratorResultBuffer int
  | CallInitializeIteratorHandlers "IteratorHandler list"
  | CallQuery instant "Query option"
  | CallIteratorQuery "Query option"
  | CallShutdown
  | StepInitialize nat
  | StepEnqueue nat
  | StepWorker nat bool
  | StepAcknowledge nat
  | StepShutdown

fun step :: "action \<Rightarrow> System \<Rightarrow> System option" where
  "step (CallHandlers hdls) s = Some (s\<lparr>busOf := Handlers (busOf s) hdls\<rparr>)"
| "step (CallErrorHandlers hdls) s = Some (s\<lparr>busOf := ErrorHandlers (busOf s) hdls\<rparr>)"
| "step (CallCacheAdapters adps) s =
     (case CacheAdapters (busOf s) adps of
        (bus, evs) \<Rightarrow> Some (s\<lparr>busOf := bus, trace := trace s @ evs\<rparr>))"
| "step (CallIteratorWorkerPoolSize n) s = Some (s\<lparr>busOf := IteratorWorkerPoolSize (busOf s) n\<rparr>)"
| "step (CallIteratorQueueBuffer n) s = Some (s\<lparr>busOf := IteratorQueueBuffer (busOf s) n\<rparr>)"
| "step (CallIteratorResultBuffer n) s = Some (s\<lparr>busOf := IteratorResultBuffer (busOf s) n\<rparr>)"
| "step (CallInitializeIteratorHandlers hdls) s = Some (InitializeIteratorHandlers s hdls)"
| "step (CallQuery now qry) s =
     (case Query (busOf s) now qry of (res, err, evs) \<Rightarrow> Some (s\<lparr>trace := trace s @ evs\<rparr>))"
| "step (CallIteratorQuery qry) s = Some (IteratorQuery_validate s qry)"
| "step CallShutdown s = Some (Shutdown s)"
| "step (StepInitialize j) s = InitializeIteratorHandlers_body s j"
| "step (StepEnqueue k) s = IteratorQuery_enqueue s k"
| "step (StepWorker i attached) s = iteratorWorker s i attached"
| "step (StepAcknowledge i) s = acknowledge s i"
| "step StepShutdown s = shutdown s"

fun run :: "action list \<Rightarrow> System \<Rightarrow> System option" where
  "run [] s = Some s"
| "run (a # acts) s = (case step a s of None \<Rightarrow> None | Some s' \<Rightarrow> run acts s')"

text \<open>
  What the results about the flags ask of the callers (\<open>orderly\<close>):
  \<^verbatim>\<open>InitializeIteratorHandlers\<close> is not called while a goroutine executes \<^verbatim>\<open>shutdown\<close>, and
  the pool size fits the 32-bit counter of the workers.
\<close>

fun admissible :: "System \<Rightarrow> action \<Rightarrow> bool" where
  "admissible s (CallInitializeIteratorHandlers hdls) =
     (sd s = SdIdle \<and> iteratorWorkerPoolSize (busOf s) < 2 ^ 32)"
| "admissible s a = True"

fun orderly :: "System \<Rightarrow> action list \<Rightarrow> bool" where
  "orderly s [] = True"
| "orderly s (a # acts) =
     (admissible s a \<and> (case step a s of None \<Rightarrow> True | Some s' \<Rightarrow> orderly s' acts))"

definition live :: "System \<Rightarrow> nat" where
  "live s = length (filter (\<lambda>w. w \<noteq> WExited) (pool s))"

definition signalling :: "System \<Rightarrow> nat" where
  "signalling s = length (filter (\<lambda>w. w = WSignal) (pool s))"

definition sentinels :: "System \<Rightarrow> nat" where
  "sentinels s = length (filter (\<lambda>x. x = None) (buffered (iteratorQueryQueue (busOf s))))"

text \<open>
  \<open>initialising\<close> counts the goroutines that are executing the body of
  \<^verbatim>\<open>InitializeIteratorHandlers\<close>, and \<open>going\<close> those of them that have counted a worker
  and not yet started it.
\<close>

fun is_done :: "init_pc \<Rightarrow> bool" where
  "is_done IniDone = True"
| "is_done p = False"

definition initialising :: "System \<Rightarrow> nat" where
  "initialising s = length (filter (\<lambda>p. \<not> is_done p) (inits s))"

fun is_go :: "init_pc \<Rightarrow> bool" where
  "is_go (IniGo i) = True"
| "is_go p = False"

definition going :: "System \<Rightarrow> nat" where
  "going s = length (filter is_go (inits s))"

text \<open>
  What the results about the drain ask of the callers (\<open>apart\<close>): the executions of
  \<^verbatim>\<open>InitializeIteratorHandlers\<close> and of \<^verbatim>\<open>shutdown\<close> do not overlap.
  \<^verbatim>\<open>InitializeIteratorHandlers\<close> is not called while a goroutine executes \<^verbatim>\<open>shutdown\<close>,
  \<^verbatim>\<open>Shutdown\<close> is not called while a goroutine executes the body of
  \<^verbatim>\<open>InitializeIteratorHandlers\<close>, and the pool size fits the 32-bit counter of the
  workers.
\<close>

fun secluded :: "System \<Rightarrow> action \<Rightarrow> bool" where
  "secluded s (CallInitializeIteratorHandlers hdls) =
     (sd s = SdIdle \<and> iteratorWorkerPoolSize (busOf s) < 2 ^ 32)"
| "secluded s CallShutdown = (initialising s = 0)"
| "secluded s a = True"

fun apart :: "System \<Rightarrow> action list \<Rightarrow> bool" where
  "apart s [] = True"
| "apart s (a # acts) =
     (secluded s a \<and> (case step a s of None \<Rightarrow> True | Some s' \<Rightarrow> apart s' acts))"


text \<open>
  What holds in every state the bus reaches when the executions of
  \<^verbatim>\<open>InitializeIteratorHandlers\<close> and of \<^verbatim>\<open>shutdown\<close> are kept apart.  The counter of the
  workers is the number of workers that have not returned, counted once more between an
  acknowledgment and \<^verbatim>\<open>iteratorWorkerDown\<close>, and once more between \<^verbatim>\<open>iteratorWorkerUp\<close>
  and the start of the worker.  Exactly one \<^verbatim>\<open>nil\<close> is on its way (in the queue, or
  taken by a worker that has not yet been acknowledged) while \<^verbatim>\<open>shutdown\<close> waits on
  \<^verbatim>\<open>closed\<close>, and none otherwise.  At most one goroutine executes the body of
  \<^verbatim>\<open>InitializeIteratorHandlers\<close>, no \<^verbatim>\<open>shutdown\<close> executes meanwhile, and the workers
  running are those it has started (\<open>stage_ok\<close>).  In particular no worker is running
  when the bus is not initialised, so the bus is initialised again only when every
  worker of an earlier initialisation has returned, and the queue of the bus is the
  channel that every running worker was given.
\<close>

fun stage_ok :: "System \<Rightarrow> init_pc \<Rightarrow> bool" where
  "stage_ok s (IniHandlers hdls) = (live s = 0)"
| "stage_ok s IniQueue = (live s = 0)"
| "stage_ok s (IniTest i) = (live s = i \<and> iteratorQueryQueue (busOf s) \<noteq> NilChan)"
| "stage_ok s (IniUp i) =
     (live s = i \<and> int i < iteratorWorkerPoolSize (busOf s)
      \<and> iteratorQueryQueue (busOf s) \<noteq> NilChan)"
| "stage_ok s (IniGo i) =
     (live s = i \<and> int i < iteratorWorkerPoolSize (busOf s)
      \<and> iteratorQueryQueue (busOf s) \<noteq> NilChan)"
| "stage_ok s IniDone = True"

definition drain_inv :: "System \<Rightarrow> bool" where
  "drain_inv s \<longleftrightarrow>
     (initialized (busOf s) = 0 \<or> initialized (busOf s) = 1)
   \<and> shuttingDown (busOf s) = (if sd s = SdIdle then 0 else 1)
   \<and> unat (iteratorWorkers (busOf s)) = live s + (if sd s = SdDown then 1 else 0) + going s
   \<and> sentinels s + signalling s = (if sd s = SdRecv then 1 else 0)
   \<and> (sd s \<in> {SdSend, SdRecv} \<longrightarrow> 0 < live s)
   \<and> (sd s \<in> {SdAdapters, SdResetInit, SdResetShut} \<longrightarrow> live s = 0)
   \<and> (sd s = SdResetShut \<longrightarrow> initialized (busOf s) = 0)
   \<and> (initialized (busOf s) = 0 \<longrightarrow> live s = 0)
   \<and> (0 < live s \<longrightarrow> iteratorQueryQueue (busOf s) \<noteq> NilChan)
   \<and> initialising s \<le> 1
   \<and> (0 < initialising s
        \<longrightarrow> sd s = SdIdle \<and> initialized (busOf s) = 1
            \<and> iteratorWorkerPoolSize (busOf s) < 2 ^ 32)
   \<and> (\<forall>p\<in>set (inits s). stage_ok s p)"

text \<open>
  The steps of the goroutines of the bus itself (\<open>own_step\<close>), and a measure of what is
  left of a shutdown: the counter of the workers, then how far \<^verbatim>\<open>shutdown\<close> is from its
  end within the current iteration, then the elements still to be received, where an
  element a caller is about to send counts twice.
\<close>

fun sd_rank :: "shutdown_pc \<Rightarrow> nat" where
  "sd_rank SdIdle = 0"
| "sd_rank SdResetShut = 1"
| "sd_rank SdResetInit = 2"
| "sd_rank SdAdapters = 3"
| "sd_rank SdDown = 4"
| "sd_rank SdRecv = 5"
| "sd_rank SdSend = 6"
| "sd_rank SdTest = 7"

definition drain_measure :: "System \<Rightarrow> nat \<times> nat \<times> nat" where
  "drain_measure s =
     (unat (iteratorWorkers (busOf s)), sd_rank (sd s),
      length (buffered (iteratorQueryQueue (busOf s))) + 2 * length (inflight s))"

fun own_step :: "action \<Rightarrow> bool" where
  "own_step StepShutdown = True"
| "own_step (StepWorker i attached) = True"
| "own_step (StepAcknowledge i) = True"
| "own_step (StepEnqueue k) = True"
| "own_step a = False"

section \<open>Notions used to state the properties\<close>



definition calls :: "Handler list \<Rightarrow> event list" where
  "calls hdls = map (\<lambda>hdl. EvHandle (hdl_id hdl)) hdls"

definition iter_calls :: "IteratorHandler list \<Rightarrow> event list" where
  "iter_calls hdls = map (\<lambda>hdl. EvIterHandle (ihdl_id hdl)) hdls"



text \<open>
  The handler chain in the words of the specification, for the streaming dispatch: the
  handlers run in registration order; a handler error ends the run and is reported;
  "propagation stopped" ends the loop; and after the loop, in every run that no handler
  error ended, a result that is not "handled" is reported as \<^verbatim>\<open>NoHandlersFound\<close>.
\<close>

definition chain_after :: "Bus \<Rightarrow> Query \<Rightarrow> IteratorResult \<Rightarrow> IteratorResult \<times> event list" where
  "chain_after bus qry res =
     (if \<not> iter_isHandled res
      then (res, error bus (Some qry) (ErrorNoQueryHandlersFound qry))
      else (res, []))"


definition is_Set :: "event \<Rightarrow> bool" where
  "is_Set ev = (case ev of EvSet i \<Rightarrow> True | _ \<Rightarrow> False)"

text \<open>\<open>asked adps qry res\<close> are the adapters up to and including the first one whose
  \<^verbatim>\<open>Set\<close> accepts, or all of them when none accepts.\<close>

definition asked :: "CacheAdapter list \<Rightarrow> Query \<Rightarrow> Result \<Rightarrow> CacheAdapter list" where
  "asked adps qry res =
     takeWhile (\<lambda>adp. \<not> adp_Set adp qry res) adps @ take 1 (dropWhile (\<lambda>adp. \<not> adp_Set adp qry res) adps)"

section \<open>Collaborators used as examples\<close>

text \<open>The queries and handlers of \<^verbatim>\<open>utils_test.go\<close> (a handler there switches on the
  type of the query, here on its \<^verbatim>\<open>ID()\<close>), a streaming handler that only yields, and
  cache adapters that accept every \<^verbatim>\<open>Set\<close>, refuse every \<^verbatim>\<open>Set\<close>, or hold a result.\<close>

definition testQueryStruct :: Query where
  "testQueryStruct = \<lparr>ID = ''UUID'', cacheable = None\<rparr>"
definition testQueryEmptyResult :: Query where
  "testQueryEmptyResult = \<lparr>ID = ''UUID-EMPTY-RESULT'', cacheable = None\<rparr>"
definition testQueryError :: Query where
  "testQueryError = \<lparr>ID = ''UUID-ERROR'', cacheable = None\<rparr>"
definition testQueryUnsupported :: Query where
  "testQueryUnsupported = \<lparr>ID = ''UUID-UNSUPPORTED'', cacheable = None\<rparr>"
definition testCacheQuery :: Query where
  "testCacheQuery = \<lparr>ID = ''UUID-CACHE'',
     cacheable = Some \<lparr>CacheKey = ''CACHE-KEY'', CacheDuration = 1000000000\<rparr>\<rparr>"

text \<open>Modelled from the spec: \<^verbatim>\<open>res.Add(v)\<close> appends a value; the result is "handled"
  once a handler contributes data.\<close>

definition Add :: "Result \<Rightarrow> string \<Rightarrow> Result" where
  "Add res v = res\<lparr>res_data := res_data res @ [v], res_handled := True\<rparr>"

text \<open>Modelled from the spec: \<^verbatim>\<open>res.Done()\<close> records an explicit completion: the result is
  "handled" and the propagation stops.\<close>

definition Done :: "Result \<Rightarrow> Result" where
  "Done res = res\<lparr>res_handled := True, res_stopped := True\<rparr>"

definition testHandler :: "nat \<Rightarrow> Handler" where
  "testHandler i = \<lparr>hdl_id = i,
     hdl_Handle = (\<lambda>qry res. if ID qry = ''UUID'' then (None, Add res ''bar'')
                               else if ID qry = ''UUID-EMPTY-RESULT'' then (None, Done res)
                               else (None, res))\<rparr>"
definition testHandlerWithErrors :: "nat \<Rightarrow> Handler" where
  "testHandlerWithErrors i = \<lparr>hdl_id = i,
     hdl_Handle = (\<lambda>qry res. if ID qry = ''UUID-ERROR'' then (Some (HandlerError ''query failed''), res)
                               else (None, res))\<rparr>"
definition testCacheHandler :: "nat \<Rightarrow> Handler" where
  "testCacheHandler i = \<lparr>hdl_id = i,
     hdl_Handle = (\<lambda>qry res. if ID qry = ''UUID-CACHE'' \<or> ID qry = ''UUID-CACHE-2''
                               then (None, Add (Add res ''bar'') ''bar'') else (None, res))\<rparr>"

definition acceptingAdapter :: "nat \<Rightarrow> CacheAdapter" where
  "acceptingAdapter i = \<lparr>adp_id = i, adp_Set = (\<lambda>qry res. True), adp_Get = (\<lambda>qry. None)\<rparr>"
definition refusingAdapter :: "nat \<Rightarrow> CacheAdapter" where
  "refusingAdapter i = \<lparr>adp_id = i, adp_Set = (\<lambda>qry res. False), adp_Get = (\<lambda>qry. None)\<rparr>"
definition holdingAdapter :: "nat \<Rightarrow> Result \<Rightarrow> CacheAdapter" where
  "holdingAdapter i r = \<lparr>adp_id = i, adp_Set = (\<lambda>qry res. True), adp_Get = (\<lambda>qry. Some r)\<rparr>"

text \<open>Modelled from the spec: \<^verbatim>\<open>res.Yield(v)\<close> appends an item to the iterator result, which
  is "handled" once an item has been recorded.\<close>

definition Yield :: "IteratorResult \<Rightarrow> string \<Rightarrow> IteratorResult" where
  "Yield res v = res\<lparr>it_items := it_items res @ [v], it_handled := True\<rparr>"

text \<open>Modelled from the spec: \<^verbatim>\<open>res.Done()\<close> on an iterator result records an explicit
  completion: the result is "handled" and the propagation stops.\<close>

definition iter_Done :: "IteratorResult \<Rightarrow> IteratorResult" where
  "iter_Done res = res\<lparr>it_handled := True, it_stopped := True\<rparr>"

definition testIteratorHandler :: "nat \<Rightarrow> IteratorHandler" where
  "testIteratorHandler i = \<lparr>ihdl_id = i,
     ihdl_Handle = (\<lambda>qry res. if ID qry = ''UUID'' then (None, iter_Done (Yield res ''bar''))
                                else (None, res))\<rparr>"

definition yieldIteratorHandler :: "nat \<Rightarrow> IteratorHandler" where
  "yieldIteratorHandler i = \<lparr>ihdl_id = i,
     ihdl_Handle = (\<lambda>qry res. if ID qry = ''UUID'' then (None, Yield res ''bar'') else (None, res))\<rparr>"

definition testIteratorHandlerWithErrors :: "nat \<Rightarrow> IteratorHandler" where
  "testIteratorHandlerWithErrors i = \<lparr>ihdl_id = i,
     ihdl_Handle = (\<lambda>qry res. if ID qry = ''UUID-ERROR''
                                then (Some (HandlerError ''query failed''), res) else (None, res))\<rparr>"

definition chainBus :: Bus where
  "chainBus = (NewBus 4 (acceptingAdapter 1))\<lparr>
     handlers := [testHandler 1, testHandlerWithErrors 2, testHandler 3, testHandler 4],
     iteratorHandlers := [yieldIteratorHandler 1, testIteratorHandlerWithErrors 2,
                          testIteratorHandler 3, yieldIteratorHandler 4],
     errorHandlers := [7]\<rparr>"

definition cacheBus :: Bus where
  "cacheBus = (NewBus 4 (acceptingAdapter 1))\<lparr>handlers := [testCacheHandler 1], errorHandlers := [7],
     cacheAdapters := [refusingAdapter 1, acceptingAdapter 2, acceptingAdapter 3]\<rparr>"

definition holdingBus :: Bus where
  "holdingBus = cacheBus\<lparr>cacheAdapters :=
     [refusingAdapter 1, holdingAdapter 2 (Add newResult ''bar''), acceptingAdapter 3]\<rparr>"

text \<open>A bus initialised with two workers, one handler that yields and one error handler,
  with one pending query in its queue.\<close>

definition waitingSystem :: System where
  "waitingSystem = \<lparr>
     busOf = (NewBus 2 (acceptingAdapter 1))\<lparr>initialized := 1, iteratorWorkers := 2,
        iteratorHandlers := [yieldIteratorHandler 1], errorHandlers := [7],
        iteratorQueryQueue := Chan 100 [Some \<lparr>pen_qry = testQueryStruct, pen_res = newIteratorResult 0\<rparr>]\<rparr>,
     pool = [WReceive, WReceive], sd = SdIdle, inits = [IniDone], inflight = [], served = [],
     trace = []\<rparr>"

text \<open>The nine statements of the body of \<^verbatim>\<open>InitializeIteratorHandlers\<close> for a pool of two
  workers.  A run that initialises two workers, enqueues one query and starts the
  shutdown up to the first wait on \<^verbatim>\<open>closed\<close>; its continuation up to the last
  statement of \<^verbatim>\<open>shutdown\<close>; and the state after that last statement.\<close>

definition initSteps :: "action list" where
  "initSteps = [StepInitialize 0, StepInitialize 0, StepInitialize 0, StepInitialize 0,
     StepInitialize 0, StepInitialize 0, StepInitialize 0, StepInitialize 0, StepInitialize 0]"

definition drainRun :: "action list" where
  "drainRun = [CallIteratorWorkerPoolSize 2, CallInitializeIteratorHandlers [yieldIteratorHandler 1]]
     @ initSteps
     @ [CallIteratorQuery (Some testQueryStruct), StepEnqueue 0, CallShutdown, StepShutdown,
        StepShutdown]"

definition drainRest :: "action list" where
  "drainRest = [StepWorker 0 True, StepWorker 1 True, StepAcknowledge 1, StepShutdown,
     StepShutdown, StepShutdown, StepWorker 0 True, StepAcknowledge 0, StepShutdown, StepShutdown,
     StepShutdown, StepShutdown]"

definition drainedSystem :: System where
  "drainedSystem = \<lparr>
     busOf = (NewBus 8 (acceptingAdapter 1))\<lparr>iteratorWorkerPoolSize := 2,
        iteratorHandlers := [yieldIteratorHandler 1], iteratorQueryQueue := Chan 100 []\<rparr>,
     pool = [WExited, WExited], sd = SdIdle, inits = [IniDone], inflight = [],
     served = [\<lparr>it_items = [''bar''], it_handled = True, it_stopped = False, it_closed = True\<rparr>],
     trace = [EvIterHandle 1, EvShutdown 1]\<rparr>"

text \<open>A run in which \<^verbatim>\<open>Shutdown\<close> is called on a bus that is not initialised,
  \<^verbatim>\<open>shutdown\<close> finds no worker, and \<^verbatim>\<open>InitializeIteratorHandlers\<close> is then called and
  starts two workers before \<^verbatim>\<open>shutdown\<close> goes on; the states before and after the last
  three statements of \<^verbatim>\<open>shutdown\<close>.\<close>

definition raceRun :: "action list" where
  "raceRun = [CallIteratorWorkerPoolSize 2, CallShutdown, StepShutdown,
     CallInitializeIteratorHandlers [yieldIteratorHandler 1]] @ initSteps"

definition racingSystem :: System where
  "racingSystem = \<lparr>
     busOf = (NewBus 8 (acceptingAdapter 1))\<lparr>iteratorWorkerPoolSize := 2, initialized := 1,
        shuttingDown := 1, iteratorWorkers := 2,
        iteratorHandlers := [yieldIteratorHandler 1], iteratorQueryQueue := Chan 100 []\<rparr>,
     pool = [WReceive, WReceive], sd = SdAdapters, inits = [IniDone], inflight = [], served = [],
     trace = []\<rparr>"

definition racedSystem :: System where
  "racedSystem = \<lparr>
     busOf = (NewBus 8 (acceptingAdapter 1))\<lparr>iteratorWorkerPoolSize := 2, iteratorWorkers := 2,
        iteratorHandlers := [yieldIteratorHandler 1], iteratorQueryQueue := Chan 100 []\<rparr>,
     pool = [WReceive, WReceive], sd = SdIdle, inits = [IniDone], inflight = [], served = [],
     trace = [EvShutdown 1]\<rparr>"

lemmas fixtures = testQueryStruct_def testQueryEmptyResult_def testQueryError_def
  testQueryUnsupported_def testCacheQuery_def Add_def Done_def iter_Done_def
  testHandler_def testHandlerWithErrors_def testCacheHandler_def testIteratorHandler_def
  acceptingAdapter_def refusingAdapter_def holdingAdapter_def Yield_def yieldIteratorHandler_def
  testIteratorHandlerWithErrors_def cacheBus_def chainBus_def holdingBus_def waitingSystem_def
  initSteps_def drainRun_def drainRest_def drainedSystem_def raceRun_def racingSystem_def
  racedSystem_def

lemmas eval_defs = NewBus_def fixtures Query_def isValid_def result_def query_def
      query_after_def handleCache_def isHandled_def propagationStopped_def expires_def cached_def
      newCacheableResult_def newResult_def Let_def asked_def error_def loadedFromCache_def
      iteratorQuery_def iter_isHandled_def iter_propagationStopped_def newIteratorResult_def
      close_def calls_def iter_calls_def iteratorWorker_body_def is_Set_def chain_after_def

lemmas pool_defs = start_def InitializeIteratorHandlers_def InitializeIteratorHandlers_body_def
  initialize_def CompareAndSwapUint32_def
  make_chan_def iteratorWorkerUp_def iteratorWorkerDown_def enqueueIteratorQuery_def Shutdown_def
  shutdown_def iteratorWorker_def acknowledge_def IteratorQuery_validate_def IteratorQuery_enqueue_def
  isIteratorValid_def isInitialized_def isShuttingDown_def Handlers_def ErrorHandlers_def
  CacheAdapters_def IteratorWorkerPoolSize_def IteratorQueueBuffer_def IteratorResultBuffer_def

section \<open>Lemmas on the loops\<close>

lemma handleCache_loop_True: "handleCache_loop adps qry res True = (True, [])"
  by (induction adps) auto

lemma handleCache_loop_False:
  "handleCache_loop adps qry res False =
     (\<exists>adp\<in>set adps. adp_Set adp qry res, map (\<lambda>adp. EvSet (adp_id adp)) (asked adps qry res))"
  by (induction adps) (auto simp: asked_def handleCache_loop_True)



lemma query_after_error:
  "query_after bus now qry res = (Some e, r, evs) \<Longrightarrow> r = res \<and> evs = error bus (Some qry) e"
  by (auto simp: query_after_def Let_def split: if_splits prod.splits)

lemma query_loop_error:
  "query_loop bus now hdls qry res = (Some e, r, evs) \<Longrightarrow>
   \<exists>evs0. evs = evs0 @ error bus (Some qry) e \<and> (\<forall>ev\<in>set evs. \<not> is_Set ev)"
proof (induction hdls arbitrary: res evs)
  case Nil
  then show ?case
    by (auto dest!: query_after_error simp: error_def is_Set_def)
next
  case (Cons hdl hdls)
  obtain e1 r1 where h: "hdl_Handle hdl qry res = (e1, r1)" by (cases "hdl_Handle hdl qry res")
  show ?case
  proof (cases e1)
    case (Some err)
    with Cons.prems h show ?thesis
      by (auto simp: error_def is_Set_def intro: exI [of _ "[EvHandle (hdl_id hdl)]"])
  next
    case None
    show ?thesis
    proof (cases "propagationStopped r1")
      case True
      with Cons.prems h None obtain evs' where
        "query_after bus now qry r1 = (Some e, r, evs')" "evs = EvHandle (hdl_id hdl) # evs'"
        by (auto split: prod.splits)
      then show ?thesis
        by (auto dest!: query_after_error simp: error_def is_Set_def
              intro: exI [of _ "[EvHandle (hdl_id hdl)]"])
    next
      case False
      with Cons.prems h None obtain evs' where
        r: "query_loop bus now hdls qry r1 = (Some e, r, evs')" "evs = EvHandle (hdl_id hdl) # evs'"
        by (auto split: prod.splits)
      from Cons.IH [OF r(1)] obtain evs0 where
        "evs' = evs0 @ error bus (Some qry) e" "\<forall>ev\<in>set evs'. \<not> is_Set ev" by blast
      with r(2) show ?thesis
        by (auto simp: is_Set_def intro: exI [of _ "EvHandle (hdl_id hdl) # evs0"])
    qed
  qed
qed

lemma query_after_success:
  "query_after bus now qry res = (None, r, evs) \<Longrightarrow>
   isHandled res \<and> (r, evs) = handleCache bus now qry res"
  by (auto simp: query_after_def Let_def split: if_splits prod.splits)

lemma query_loop_success:
  "query_loop bus now hdls qry res = (None, r, evs) \<Longrightarrow>
   \<exists>res0 evs0. isHandled res0 \<and> r = fst (handleCache bus now qry res0)
      \<and> evs = evs0 @ snd (handleCache bus now qry res0) \<and> (\<forall>ev\<in>set evs0. \<not> is_Set ev)"
proof (induction hdls arbitrary: res evs)
  case Nil
  from query_after_success [of bus now qry res r evs] Nil show ?case
    by (auto intro!: exI [of _ res] exI [of _ "[]"] simp: fst_def snd_def split: prod.splits)
next
  case (Cons hdl hdls)
  obtain e1 r1 where h: "hdl_Handle hdl qry res = (e1, r1)" by (cases "hdl_Handle hdl qry res")
  with Cons.prems have None: "e1 = None" by (cases e1) auto
  show ?case
  proof (cases "propagationStopped r1")
    case True
    with Cons.prems h None obtain evs' where
      r: "query_after bus now qry r1 = (None, r, evs')" "evs = EvHandle (hdl_id hdl) # evs'"
      by (auto split: prod.splits)
    from query_after_success [OF r(1)] r(2) show ?thesis
      by (auto intro!: exI [of _ r1] exI [of _ "[EvHandle (hdl_id hdl)]"]
            simp: is_Set_def fst_def snd_def split: prod.splits)
  next
    case False
    with Cons.prems h None obtain evs' where
      r: "query_loop bus now hdls qry r1 = (None, r, evs')" "evs = EvHandle (hdl_id hdl) # evs'"
      by (auto split: prod.splits)
    from Cons.IH [OF r(1)] obtain res0 evs0 where
      "isHandled res0" "r = fst (handleCache bus now qry res0)"
      "evs' = evs0 @ snd (handleCache bus now qry res0)" "\<forall>ev\<in>set evs0. \<not> is_Set ev" by blast
    with r(2) show ?thesis
      by (auto intro!: exI [of _ res0] exI [of _ "EvHandle (hdl_id hdl) # evs0"] simp: is_Set_def)
  qed
qed



lemma result_loop_hit:
  "\<forall>p\<in>set pre. adp_Get p qry = None \<Longrightarrow> adp_Get adp qry = Some r \<Longrightarrow>
   result_loop (pre @ adp # post) qry =
     (Some (loadedFromCache r), map (\<lambda>p. EvGet (adp_id p)) (pre @ [adp]))"
  by (induction pre) auto

lemma result_loop_miss:
  "\<forall>p\<in>set adps. adp_Get p qry = None \<Longrightarrow>
   result_loop adps qry = (None, map (\<lambda>p. EvGet (adp_id p)) adps)"
  by (induction adps) auto

lemma step_served: "step a s = Some s' \<Longrightarrow> \<exists>more. served s' = served s @ more"
proof (cases a)
  case (CallInitializeIteratorHandlers hdls)
  assume "step a s = Some s'"
  with CallInitializeIteratorHandlers show ?thesis
    by (auto simp: InitializeIteratorHandlers_def split: prod.splits bool.splits)
next
  case (StepInitialize j)
  assume "step a s = Some s'"
  with StepInitialize show ?thesis
    by (auto simp: InitializeIteratorHandlers_body_def Let_def
          split: if_splits init_pc.splits option.splits)
next
  case (StepWorker i attached)
  assume "step a s = Some s'"
  with StepWorker show ?thesis
    by (auto simp: iteratorWorker_def split: prod.splits if_splits option.splits)
next
  case StepShutdown
  assume "step a s = Some s'"
  with StepShutdown show ?thesis
    by (auto simp: shutdown_def Let_def split: shutdown_pc.splits option.splits)
qed (auto simp: CacheAdapters_def IteratorQuery_validate_def IteratorQuery_enqueue_def Shutdown_def
       acknowledge_def split: prod.splits if_splits option.splits bool.splits)

lemma run_served: "run acts s = Some s' \<Longrightarrow> \<exists>more. served s' = served s @ more"
proof (induction acts arbitrary: s)
  case Nil
  then show ?case by simp
next
  case (Cons a acts)
  then obtain s1 where s1: "step a s = Some s1" "run acts s1 = Some s'"
    by (auto split: option.splits)
  from step_served [OF s1(1)] Cons.IH [OF s1(2)] show ?case by auto
qed

lemma waitingSystem_reached:
  "run ([CallErrorHandlers [7], CallInitializeIteratorHandlers [yieldIteratorHandler 1]]
        @ initSteps @ [CallIteratorQuery (Some testQueryStruct), StepEnqueue 0])
     (start 2 (acceptingAdapter 1))
   = Some waitingSystem"
  by (simp add: pool_defs eval_defs)






section \<open>Lemmas on the drain\<close>

lemma filter_update_count:
  "i < length xs \<Longrightarrow>
   length (filter P (xs[i := y])) + (if P (xs ! i) then 1 else 0) =
   length (filter P xs) + (if P y then 1 else 0)"
proof (induction xs arbitrary: i)
  case Nil
  then show ?case by simp
next
  case (Cons x xs)
  then show ?case by (cases i) auto
qed

lemma word32_down: "(w :: 32 word) + NOT 0 = w - 1"
  by (simp add: not_eq_complement)

lemma unat_down: "unat (w :: 32 word) = Suc n \<Longrightarrow> unat (w - 1) = n"
proof -
  assume a: "unat w = Suc n"
  then have "w \<noteq> 0" by auto
  from unat_minus_one [OF this] a show ?thesis by simp
qed

lemma unat_up: "int (unat (w :: 32 word)) + 1 < 2 ^ 32 \<Longrightarrow> unat (w + 1) = Suc (unat w)"
proof -
  assume a: "int (unat w) + 1 < 2 ^ 32"
  then have "unat w + 1 < 2 ^ 32" by (simp add: nat_int_comparison(2))
  then have "unat w + unat (1 :: 32 word) < 2 ^ LENGTH(32)" by simp
  then have "unat (w + 1) = unat w + unat (1 :: 32 word)" by (simp only: unat_add_lem [THEN iffD1])
  then show ?thesis by simp
qed

lemmas counts = live_def signalling_def sentinels_def going_def initialising_def

lemma counts_sd:
  "live (s\<lparr>sd := pc\<rparr>) = live s"
  "signalling (s\<lparr>sd := pc\<rparr>) = signalling s"
  "sentinels (s\<lparr>sd := pc\<rparr>) = sentinels s"
  "going (s\<lparr>sd := pc\<rparr>) = going s"
  "initialising (s\<lparr>sd := pc\<rparr>) = initialising s"
  by (simp_all add: counts)

lemma all_done: "initialising s = 0 \<Longrightarrow> p \<in> set (inits s) \<Longrightarrow> p = IniDone"
  by (cases p) (auto simp: initialising_def filter_empty_conv)

lemma none_going: "initialising s = 0 \<Longrightarrow> going s = 0"
proof -
  assume a: "initialising s = 0"
  have "\<not> is_go p" if "p \<in> set (inits s)" for p using all_done [OF a that] by simp
  then show ?thesis by (simp add: going_def filter_empty_conv)
qed

lemma others_done:
  assumes "length (filter (\<lambda>p. \<not> is_done p) xs) \<le> 1" and "j < length xs" and "\<not> is_done (xs ! j)"
    and "p \<in> set (xs[j := y])"
  shows "p = y \<or> p = IniDone"
proof -
  from filter_update_count [OF assms(2), of "\<lambda>p. \<not> is_done p" IniDone] assms(3)
  have "Suc (length (filter (\<lambda>p. \<not> is_done p) (xs[j := IniDone]))) =
        length (filter (\<lambda>p. \<not> is_done p) xs)" by simp
  with assms(1) have "length (filter (\<lambda>p. \<not> is_done p) (xs[j := IniDone])) = 0" by linarith
  then have "filter (\<lambda>p. \<not> is_done p) (xs[j := IniDone]) = []" by (simp only: length_0_conv)
  then have d: "\<forall>q\<in>set (xs[j := IniDone]). is_done q" by (simp add: filter_empty_conv)
  from assms(4) obtain k where k: "k < length xs" "p = xs[j := y] ! k"
    by (auto simp: in_set_conv_nth)
  show ?thesis
  proof (cases "k = j")
    case True
    with k assms(2) show ?thesis by simp
  next
    case False
    with k have "p = xs[j := IniDone] ! k" by simp
    with k(1) have "p \<in> set (xs[j := IniDone])" by (auto simp: in_set_conv_nth)
    with d have "is_done p" by blast
    then show ?thesis by (cases p) auto
  qed
qed

section \<open>Lemmas on the flags\<close>

lemma shutdown_at:
  "sd s = SdIdle \<Longrightarrow> shutdown s = None"
  "sd s = SdRecv \<Longrightarrow> shutdown s = None"
  "sd s = SdTest \<Longrightarrow> shutdown s =
     Some (s\<lparr>sd := (if iteratorWorkers (busOf s) > 0 then SdSend else SdAdapters)\<rparr>)"
  "sd s = SdSend \<Longrightarrow> shutdown s =
     (case send (iteratorQueryQueue (busOf s)) None of
        None \<Rightarrow> None
      | Some ch \<Rightarrow> Some (s\<lparr>busOf := (busOf s)\<lparr>iteratorQueryQueue := ch\<rparr>, sd := SdRecv\<rparr>))"
  "sd s = SdDown \<Longrightarrow> shutdown s = Some (s\<lparr>busOf := iteratorWorkerDown (busOf s), sd := SdTest\<rparr>)"
  "sd s = SdAdapters \<Longrightarrow> shutdown s =
     Some (s\<lparr>trace := trace s @ map (\<lambda>adp. EvShutdown (adp_id adp)) (cacheAdapters (busOf s)),
             sd := SdResetInit\<rparr>)"
  "sd s = SdResetInit \<Longrightarrow> shutdown s =
     Some (s\<lparr>busOf := (busOf s)\<lparr>initialized := fst (CompareAndSwapUint32 (initialized (busOf s)) 1 0)\<rparr>,
             sd := SdResetShut\<rparr>)"
  "sd s = SdResetShut \<Longrightarrow> shutdown s =
     Some (s\<lparr>busOf := (busOf s)\<lparr>shuttingDown := fst (CompareAndSwapUint32 (shuttingDown (busOf s)) 1 0)\<rparr>,
             sd := SdIdle\<rparr>)"
  by (simp_all add: shutdown_def Let_def)

lemma body_at:
  assumes "j < length (inits s)"
  shows "inits s ! j = IniHandlers hdls \<Longrightarrow> InitializeIteratorHandlers_body s j =
       Some (s\<lparr>busOf := (busOf s)\<lparr>iteratorHandlers := hdls\<rparr>, inits := (inits s)[j := IniQueue]\<rparr>)"
    and "inits s ! j = IniQueue \<Longrightarrow> InitializeIteratorHandlers_body s j =
       (case make_chan (iteratorQueueBuffer (busOf s)) of
          None \<Rightarrow> None
        | Some ch \<Rightarrow> Some (s\<lparr>busOf := (busOf s)\<lparr>iteratorQueryQueue := ch\<rparr>,
                             inits := (inits s)[j := IniTest 0]\<rparr>))"
    and "inits s ! j = IniTest i \<Longrightarrow> InitializeIteratorHandlers_body s j =
       Some (s\<lparr>inits := (inits s)[j := (if int i < iteratorWorkerPoolSize (busOf s)
                                          then IniUp i else IniDone)]\<rparr>)"
    and "inits s ! j = IniUp i \<Longrightarrow> InitializeIteratorHandlers_body s j =
       Some (s\<lparr>busOf := iteratorWorkerUp (busOf s), inits := (inits s)[j := IniGo i]\<rparr>)"
    and "inits s ! j = IniGo i \<Longrightarrow> InitializeIteratorHandlers_body s j =
       Some (s\<lparr>pool := pool s @ [WReceive], inits := (inits s)[j := IniTest (Suc i)]\<rparr>)"
    and "inits s ! j = IniDone \<Longrightarrow> InitializeIteratorHandlers_body s j = None"
  using assms by (simp_all add: InitializeIteratorHandlers_body_def Let_def)

lemma body_flags:
  assumes "InitializeIteratorHandlers_body s j = Some s'"
  shows "initialized (busOf s') = initialized (busOf s)"
    and "shuttingDown (busOf s') = shuttingDown (busOf s)"
    and "sd s' = sd s"
    and "iteratorWorkerPoolSize (busOf s') = iteratorWorkerPoolSize (busOf s)"
  using assms
  by (auto simp: InitializeIteratorHandlers_body_def Let_def iteratorWorkerUp_def
        split: if_splits init_pc.splits option.splits)





lemma step_shutting:
  assumes "step a s = Some s'" and "shuttingDown (busOf s) = (if sd s = SdIdle then 0 else 1)"
  shows "shuttingDown (busOf s') = (if sd s' = SdIdle then 0 else 1)"
proof (cases a)
  case (CallInitializeIteratorHandlers hdls)
  with assms show ?thesis
    by (auto simp: InitializeIteratorHandlers_def initialize_def
          CompareAndSwapUint32_def split: if_splits)
next
  case CallShutdown
  with assms show ?thesis
    by (auto simp: Shutdown_def CompareAndSwapUint32_def split: if_splits)
next
  case (StepInitialize j)
  with assms(1) have "InitializeIteratorHandlers_body s j = Some s'" by simp
  from body_flags(2,3) [OF this] assms(2) show ?thesis by simp
next
  case (StepWorker i attached)
  with assms show ?thesis
    by (auto simp: iteratorWorker_def split: prod.splits if_splits option.splits)
next
  case (StepAcknowledge i)
  with assms show ?thesis
    by (auto simp: acknowledge_def split: if_splits)
next
  case StepShutdown
  with assms(1) have sh: "shutdown s = Some s'" by simp
  show ?thesis
  proof (cases "sd s")
    case SdSend
    with sh assms(2) show ?thesis
      by (auto simp: shutdown_at split: option.splits)
  qed (use sh assms(2) in
        \<open>auto simp: shutdown_at CompareAndSwapUint32_def iteratorWorkerDown_def
           split: if_splits\<close>)
next
  case (StepEnqueue k)
  with assms show ?thesis
    by (auto simp: IteratorQuery_enqueue_def enqueueIteratorQuery_def
          split: if_splits option.splits)
next
  case (CallIteratorQuery qry)
  with assms show ?thesis
    by (auto simp: IteratorQuery_validate_def split: prod.splits option.splits)
qed (use assms in \<open>auto simp: CacheAdapters_def Handlers_def ErrorHandlers_def
       IteratorWorkerPoolSize_def IteratorQueueBuffer_def IteratorResultBuffer_def
       isInitialized_def split: prod.splits if_splits\<close>)

lemma run_shutting:
  "run acts s = Some s' \<Longrightarrow> shuttingDown (busOf s) = (if sd s = SdIdle then 0 else 1) \<Longrightarrow>
   shuttingDown (busOf s') = (if sd s' = SdIdle then 0 else 1)"
proof (induction acts arbitrary: s)
  case Nil
  then show ?case by simp
next
  case (Cons a acts)
  then obtain s1 where s1: "step a s = Some s1" "run acts s1 = Some s'"
    by (auto split: option.splits)
  from Cons.IH [OF s1(2) step_shutting [OF s1(1) Cons.prems(2)]] show ?case .
qed

lemma shutting_reached:
  "run acts (start procs mem) = Some s \<Longrightarrow>
   shuttingDown (busOf s) = (if sd s = SdIdle then 0 else 1)"
  by (rule run_shutting [of acts "start procs mem"]) (simp_all add: start_def NewBus_def)

section \<open>Lemmas on the invariant of the drain\<close>

lemma stage_ok_frame:
  assumes "stage_ok s p" and "live s' = live s"
    and "iteratorWorkerPoolSize (busOf s') = iteratorWorkerPoolSize (busOf s)"
    and "iteratorQueryQueue (busOf s) \<noteq> NilChan \<longrightarrow> iteratorQueryQueue (busOf s') \<noteq> NilChan"
  shows "stage_ok s' p"
  using assms by (cases p) auto

lemma inv_frame:
  assumes "drain_inv s"
    and "initialized (busOf s') = initialized (busOf s)"
    and "shuttingDown (busOf s') = shuttingDown (busOf s)"
    and "iteratorWorkers (busOf s') = iteratorWorkers (busOf s)"
    and "iteratorWorkerPoolSize (busOf s') = iteratorWorkerPoolSize (busOf s)"
    and "length (filter (\<lambda>x. x = None) (buffered (iteratorQueryQueue (busOf s')))) =
         length (filter (\<lambda>x. x = None) (buffered (iteratorQueryQueue (busOf s))))"
    and "iteratorQueryQueue (busOf s) \<noteq> NilChan \<longrightarrow> iteratorQueryQueue (busOf s') \<noteq> NilChan"
    and "pool s' = pool s" and "sd s' = sd s" and "inits s' = inits s"
  shows "drain_inv s'"
proof -
  have c: "live s' = live s" "signalling s' = signalling s" "sentinels s' = sentinels s"
    "going s' = going s" "initialising s' = initialising s"
    using assms(6,8,10) by (simp_all add: counts)
  from assms(1) have "\<forall>p\<in>set (inits s). stage_ok s p" by (simp add: drain_inv_def)
  with stage_ok_frame [OF _ c(1) assms(5,7)] assms(10)
  have st: "\<forall>p\<in>set (inits s'). stage_ok s' p" by auto
  from assms(1) show ?thesis
    unfolding drain_inv_def c assms(2-5,9) using st assms(7) by blast
qed

lemma inv_setters:
  assumes "drain_inv s"
  shows "drain_inv (s\<lparr>busOf := Handlers (busOf s) hdls\<rparr>)"
    and "drain_inv (s\<lparr>busOf := ErrorHandlers (busOf s) ehdls\<rparr>)"
    and "drain_inv (s\<lparr>busOf := IteratorQueueBuffer (busOf s) n\<rparr>)"
    and "drain_inv (s\<lparr>busOf := IteratorResultBuffer (busOf s) n\<rparr>)"
    and "drain_inv (s\<lparr>busOf := fst (CacheAdapters (busOf s) adps), trace := tr\<rparr>)"
    and "drain_inv (s\<lparr>trace := tr\<rparr>)"
    and "drain_inv (IteratorQuery_validate s qry)"
  by (rule inv_frame [OF assms];
      simp add: Handlers_def ErrorHandlers_def IteratorQueueBuffer_def
        IteratorResultBuffer_def CacheAdapters_def IteratorQuery_validate_def
        split: prod.splits option.splits)+

lemma inv_IteratorWorkerPoolSize:
  assumes "drain_inv s"
  shows "drain_inv (s\<lparr>busOf := IteratorWorkerPoolSize (busOf s) n\<rparr>)"
proof (cases "initialized (busOf s) = 1")
  case True
  then have "IteratorWorkerPoolSize (busOf s) n = busOf s"
    by (simp add: IteratorWorkerPoolSize_def isInitialized_def)
  with assms show ?thesis by simp
next
  case False
  let ?s' = "s\<lparr>busOf := (busOf s)\<lparr>iteratorWorkerPoolSize := n\<rparr>\<rparr>"
  from False have e: "s\<lparr>busOf := IteratorWorkerPoolSize (busOf s) n\<rparr> = ?s'"
    by (simp add: IteratorWorkerPoolSize_def isInitialized_def)
  from assms False have z: "initialising s = 0" by (auto simp: drain_inv_def)
  have c: "live ?s' = live s" "signalling ?s' = signalling s" "sentinels ?s' = sentinels s"
    "going ?s' = going s" "initialising ?s' = initialising s"
    by (simp_all add: counts)
  have st: "\<forall>p\<in>set (inits ?s'). stage_ok ?s' p"
  proof
    fix p assume "p \<in> set (inits ?s')"
    then have "p \<in> set (inits s)" by simp
    from all_done [OF z this] show "stage_ok ?s' p" by simp
  qed
  from assms z have "drain_inv ?s'"
    unfolding drain_inv_def c using st by simp
  with e show ?thesis by simp
qed

lemma send_not_nil: "send ch x = Some ch' \<Longrightarrow> ch' \<noteq> NilChan"
  by (cases ch) (auto split: if_splits)

lemma recv_not_nil: "recv ch = Some (x, ch') \<Longrightarrow> ch' \<noteq> NilChan"
  by (cases ch rule: recv.cases) auto

lemma make_chan_not_nil: "make_chan n = Some ch \<Longrightarrow> ch \<noteq> NilChan"
  by (auto simp: make_chan_def split: if_splits)

lemma make_chan_empty: "make_chan n = Some ch \<Longrightarrow> buffered ch = []"
  by (auto simp: make_chan_def split: if_splits)

lemma send_Some_sentinels:
  "send ch (Some p) = Some ch' \<Longrightarrow>
   length (filter (\<lambda>x. x = None) (buffered ch')) = length (filter (\<lambda>x. x = None) (buffered ch))"
  by (cases ch) (auto split: if_splits)

lemma send_None_sentinels:
  "send ch None = Some ch' \<Longrightarrow>
   length (filter (\<lambda>x. x = None) (buffered ch')) = Suc (length (filter (\<lambda>x. x = None) (buffered ch)))"
  by (cases ch) (auto split: if_splits)

lemma recv_sentinels:
  "recv ch = Some (x, ch') \<Longrightarrow>
   length (filter (\<lambda>x. x = None) (buffered ch)) =
     length (filter (\<lambda>x. x = None) (buffered ch')) + (if x = None then 1 else 0)"
  by (cases ch rule: recv.cases) auto

lemma inv_enqueue:
  assumes "drain_inv s" and "IteratorQuery_enqueue s k = Some s'"
  shows "drain_inv s'"
proof -
  from assms(2) obtain ch where
    "send (iteratorQueryQueue (busOf s)) (Some (inflight s ! k)) = Some ch"
    "s' = s\<lparr>busOf := (busOf s)\<lparr>iteratorQueryQueue := ch\<rparr>,
            inflight := take k (inflight s) @ drop (Suc k) (inflight s)\<rparr>"
    by (auto simp: IteratorQuery_enqueue_def enqueueIteratorQuery_def split: if_splits option.splits)
  then show ?thesis
    by (intro inv_frame [OF assms(1)]) (simp_all add: send_Some_sentinels send_not_nil)
qed

lemma inv_Shutdown:
  assumes "drain_inv s" and "initialising s = 0"
  shows "drain_inv (Shutdown s)"
proof (cases "shuttingDown (busOf s) = 0")
  case False
  then have "Shutdown s = s" by (simp add: Shutdown_def CompareAndSwapUint32_def)
  with assms(1) show ?thesis by simp
next
  case True
  let ?s' = "s\<lparr>busOf := (busOf s)\<lparr>shuttingDown := 1\<rparr>, sd := SdTest\<rparr>"
  from True have e: "Shutdown s = ?s'" by (simp add: Shutdown_def CompareAndSwapUint32_def)
  from assms(1) True have i: "sd s = SdIdle" by (auto simp: drain_inv_def split: if_splits)
  have c: "live ?s' = live s" "signalling ?s' = signalling s" "sentinels ?s' = sentinels s"
    "going ?s' = going s" "initialising ?s' = initialising s"
    by (simp_all add: counts)
  have st: "\<forall>p\<in>set (inits ?s'). stage_ok ?s' p"
  proof
    fix p assume "p \<in> set (inits ?s')"
    then have "p \<in> set (inits s)" by simp
    from all_done [OF assms(2) this] show "stage_ok ?s' p" by simp
  qed
  from assms i have "drain_inv ?s'"
    unfolding drain_inv_def c using st by simp
  with e show ?thesis by simp
qed

lemma inv_shutdown:
  assumes "drain_inv s" and "shutdown s = Some s'"
  shows "drain_inv s'"
proof -
  have idle: "sd s \<noteq> SdIdle" using assms(2) by (auto simp: shutdown_at)
  with assms(1) have z: "initialising s = 0" by (auto simp: drain_inv_def)
  from none_going [OF z] have g: "going s = 0" .
  have fin: "stage_ok t p" if "p \<in> set (inits s)" for t p
    using all_done [OF z that] by simp
  show ?thesis
  proof (cases "sd s")
    case SdIdle
    with assms(2) show ?thesis by (simp add: shutdown_at)
  next
    case SdRecv
    with assms(2) show ?thesis by (simp add: shutdown_at)
  next
    case SdTest
    with assms(2) have s': "s' = s\<lparr>sd := (if iteratorWorkers (busOf s) > 0 then SdSend else SdAdapters)\<rparr>"
      by (simp add: shutdown_at)
    from assms(1) SdTest g have u: "unat (iteratorWorkers (busOf s)) = live s"
      by (simp add: drain_inv_def)
    show ?thesis
    proof (cases "iteratorWorkers (busOf s) > 0")
      case True
      then have "iteratorWorkers (busOf s) \<noteq> 0" by (simp add: word_greater_zero_iff)
      then have "unat (iteratorWorkers (busOf s)) \<noteq> 0" by (simp add: unat_eq_0)
      with u have "0 < live s" by simp
      with assms(1) SdTest True u z fin show ?thesis
        by (auto simp: drain_inv_def s' counts_sd)
    next
      case False
      then have "iteratorWorkers (busOf s) = 0" by (simp add: word_greater_zero_iff)
      with u have "live s = 0" by simp
      with assms(1) SdTest False u z fin show ?thesis
        by (auto simp: drain_inv_def s' counts_sd)
    qed
  next
    case SdSend
    with assms(2) obtain ch where
      ch: "send (iteratorQueryQueue (busOf s)) None = Some ch"
      "s' = s\<lparr>busOf := (busOf s)\<lparr>iteratorQueryQueue := ch\<rparr>, sd := SdRecv\<rparr>"
      by (auto simp: shutdown_at split: option.splits)
    have c: "live s' = live s" "signalling s' = signalling s" "going s' = going s"
      "initialising s' = initialising s" "sentinels s' = Suc (sentinels s)"
      using send_None_sentinels [OF ch(1)] by (simp_all add: counts ch(2))
    from assms(1) SdSend send_not_nil [OF ch(1)] z fin show ?thesis
      unfolding drain_inv_def c by (simp add: ch(2))
  next
    case SdDown
    with assms(2) have s': "s' = s\<lparr>busOf := iteratorWorkerDown (busOf s), sd := SdTest\<rparr>"
      by (simp add: shutdown_at)
    from assms(1) SdDown g have "unat (iteratorWorkers (busOf s)) = Suc (live s)"
      by (simp add: drain_inv_def)
    from unat_down [OF this] have u: "unat (iteratorWorkers (busOf s) - 1) = live s" .
    have c: "live s' = live s" "signalling s' = signalling s" "going s' = going s"
      "initialising s' = initialising s" "sentinels s' = sentinels s"
      by (simp_all add: counts s' iteratorWorkerDown_def)
    from assms(1) SdDown z g u fin show ?thesis
      unfolding drain_inv_def c by (simp add: s' iteratorWorkerDown_def word32_down)
  next
    case SdAdapters
    with assms(2) have s': "s' = s\<lparr>trace := trace s @ map (\<lambda>adp. EvShutdown (adp_id adp)) (cacheAdapters (busOf s)),
               sd := SdResetInit\<rparr>"
      by (simp add: shutdown_at)
    have c: "live s' = live s" "signalling s' = signalling s" "going s' = going s"
      "initialising s' = initialising s" "sentinels s' = sentinels s"
      by (simp_all add: counts s')
    from assms(1) SdAdapters z fin show ?thesis
      unfolding drain_inv_def c by (simp add: s')
  next
    case SdResetInit
    with assms(2) have s': "s' = s\<lparr>busOf := (busOf s)\<lparr>initialized := fst (CompareAndSwapUint32 (initialized (busOf s)) 1 0)\<rparr>,
               sd := SdResetShut\<rparr>"
      by (simp add: shutdown_at)
    from assms(1) have "initialized (busOf s) = 0 \<or> initialized (busOf s) = 1"
      by (simp add: drain_inv_def)
    then have i: "fst (CompareAndSwapUint32 (initialized (busOf s)) 1 0) = 0"
      by (auto simp: CompareAndSwapUint32_def)
    have c: "live s' = live s" "signalling s' = signalling s" "going s' = going s"
      "initialising s' = initialising s" "sentinels s' = sentinels s"
      by (simp_all add: counts s')
    from assms(1) SdResetInit z fin i show ?thesis
      unfolding drain_inv_def c by (auto simp: s')
  next
    case SdResetShut
    with assms(2) have s': "s' = s\<lparr>busOf := (busOf s)\<lparr>shuttingDown := fst (CompareAndSwapUint32 (shuttingDown (busOf s)) 1 0)\<rparr>,
               sd := SdIdle\<rparr>"
      by (simp add: shutdown_at)
    from assms(1) SdResetShut have "shuttingDown (busOf s) = 1" by (simp add: drain_inv_def)
    then have i: "fst (CompareAndSwapUint32 (shuttingDown (busOf s)) 1 0) = 0"
      by (simp add: CompareAndSwapUint32_def)
    have c: "live s' = live s" "signalling s' = signalling s" "going s' = going s"
      "initialising s' = initialising s" "sentinels s' = sentinels s"
      by (simp_all add: counts s')
    from assms(1) SdResetShut z fin show ?thesis
      unfolding drain_inv_def c by (simp add: s' CompareAndSwapUint32_def)
  qed
qed

lemma inv_acknowledge:
  assumes "drain_inv s" and "acknowledge s i = Some s'"
  shows "drain_inv s'"
proof -
  from assms(2) have i: "i < length (pool s)" "pool s ! i = WSignal" "sd s = SdRecv"
    and s': "s' = s\<lparr>pool := (pool s)[i := WExited], sd := SdDown\<rparr>"
    by (auto simp: acknowledge_def split: if_splits)
  from assms(1) i(3) have z: "initialising s = 0" by (auto simp: drain_inv_def)
  have fin: "stage_ok t p" if "p \<in> set (inits s)" for t p
    using all_done [OF z that] by simp
  from filter_update_count [OF i(1), of "\<lambda>w. w \<noteq> WExited" WExited] i(2)
  have l: "live s = Suc (live s')" by (simp add: counts s')
  from filter_update_count [OF i(1), of "\<lambda>w. w = WSignal" WExited] i(2)
  have g: "signalling s = Suc (signalling s')" by (simp add: counts s')
  have q: "sentinels s' = sentinels s" "going s' = going s" "initialising s' = initialising s"
    by (simp_all add: counts s')
  from assms(1) i(3) l g z fin show ?thesis
    unfolding drain_inv_def q by (auto simp: s')
qed

lemma inv_iteratorWorker:
  assumes "drain_inv s" and "iteratorWorker s i attached = Some s'"
  shows "drain_inv s'"
proof -
  from assms(2) have i: "i < length (pool s)" "pool s ! i = WReceive"
    by (auto simp: iteratorWorker_def split: if_splits)
  from assms(2) i obtain x ch where r: "recv (iteratorQueryQueue (busOf s)) = Some (x, ch)"
    by (auto simp: iteratorWorker_def split: option.splits)
  show ?thesis
  proof (cases x)
    case None
    with assms(2) i r have s': "s' = s\<lparr>busOf := (busOf s)\<lparr>iteratorQueryQueue := ch\<rparr>,
                        pool := (pool s)[i := WSignal]\<rparr>"
      by (simp add: iteratorWorker_def)
    from filter_update_count [OF i(1), of "\<lambda>w. w \<noteq> WExited" WSignal] i(2)
    have l: "live s' = live s" by (simp add: counts s')
    from filter_update_count [OF i(1), of "\<lambda>w. w = WSignal" WSignal] i(2)
    have g: "signalling s' = Suc (signalling s)" by (simp add: counts s')
    from recv_sentinels [OF r] None have q: "sentinels s = Suc (sentinels s')"
      by (simp add: counts s')
    have o: "going s' = going s" "initialising s' = initialising s"
      by (simp_all add: counts s')
    from assms(1) have "\<forall>p\<in>set (inits s). stage_ok s p" by (simp add: drain_inv_def)
    with stage_ok_frame [where s = s and s' = s', OF _ l] recv_not_nil [OF r]
    have st: "\<forall>p\<in>set (inits s'). stage_ok s' p" by (auto simp: s')
    from assms(1) g q recv_not_nil [OF r] show ?thesis
      unfolding drain_inv_def l o using st by (auto simp: s')
  next
    case (Some penQry)
    with assms(2) i r obtain res evs where
      s': "s' = s\<lparr>busOf := (busOf s)\<lparr>iteratorQueryQueue := ch\<rparr>,
                 served := served s @ [res], trace := trace s @ evs\<rparr>"
      by (auto simp: iteratorWorker_def split: prod.splits)
    from recv_sentinels [OF r] recv_not_nil [OF r] Some show ?thesis
      by (intro inv_frame [OF assms(1)]) (simp_all add: s')
  qed
qed

lemma inv_InitializeIteratorHandlers:
  assumes "drain_inv s" and "sd s = SdIdle" and "iteratorWorkerPoolSize (busOf s) < 2 ^ 32"
  shows "drain_inv (InitializeIteratorHandlers s hdls)"
proof (cases "initialized (busOf s) = 0")
  case False
  then have "InitializeIteratorHandlers s hdls = s"
    by (simp add: InitializeIteratorHandlers_def initialize_def CompareAndSwapUint32_def)
  with assms(1) show ?thesis by simp
next
  case True
  let ?s' = "s\<lparr>busOf := (busOf s)\<lparr>initialized := 1\<rparr>, inits := inits s @ [IniHandlers hdls]\<rparr>"
  from True have e: "InitializeIteratorHandlers s hdls = ?s'"
    by (simp add: InitializeIteratorHandlers_def initialize_def CompareAndSwapUint32_def)
  from assms(1) True have z: "initialising s = 0" and l: "live s = 0"
    by (auto simp: drain_inv_def)
  have c: "live ?s' = live s" "signalling ?s' = signalling s" "sentinels ?s' = sentinels s"
    "going ?s' = going s" "initialising ?s' = Suc (initialising s)"
    by (simp_all add: counts)
  have st: "\<forall>p\<in>set (inits ?s'). stage_ok ?s' p"
  proof
    fix p assume "p \<in> set (inits ?s')"
    then have "p \<in> set (inits s) \<or> p = IniHandlers hdls" by auto
    then show "stage_ok ?s' p"
    proof
      assume "p \<in> set (inits s)"
      from all_done [OF z this] show ?thesis by simp
    next
      assume "p = IniHandlers hdls"
      with l c(1) show ?thesis by simp
    qed
  qed
  from assms z l have "drain_inv ?s'"
    unfolding drain_inv_def c using st by simp
  with e show ?thesis by simp
qed

lemma count_update:
  assumes "j < length (inits s)" and "inits s' = (inits s)[j := y]"
  shows "initialising s' + (if is_done (inits s ! j) then 0 else 1) =
         initialising s + (if is_done y then 0 else 1)"
    and "going s' + (if is_go (inits s ! j) then 1 else 0) = going s + (if is_go y then 1 else 0)"
  using filter_update_count [OF assms(1), of "\<lambda>p. \<not> is_done p" y]
    filter_update_count [OF assms(1), of is_go y]
  by (auto simp: initialising_def going_def assms(2) split: if_splits)

lemma inv_body:
  assumes "drain_inv s" and "InitializeIteratorHandlers_body s j = Some s'"
  shows "drain_inv s'"
proof -
  from assms(2) have j: "j < length (inits s)"
    by (auto simp: InitializeIteratorHandlers_body_def split: if_splits)
  from assms(2) j have nd: "\<not> is_done (inits s ! j)"
    by (cases "inits s ! j") (auto simp: body_at)
  from j nd have "inits s ! j \<in> set (filter (\<lambda>p. \<not> is_done p) (inits s))" by simp
  then have pos: "0 < initialising s"
    unfolding initialising_def by (rule length_pos_if_in_set)
  with assms(1) have f: "sd s = SdIdle" "initialized (busOf s) = 1"
    "iteratorWorkerPoolSize (busOf s) < 2 ^ 32" "initialising s \<le> 1"
    "shuttingDown (busOf s) = 0" "sentinels s = 0" "signalling s = 0"
    "unat (iteratorWorkers (busOf s)) = live s + going s"
    by (auto simp: drain_inv_def)
  from pos f(4) have one: "initialising s = 1" by simp
  from assms(1) j have cur: "stage_ok s (inits s ! j)" by (simp add: drain_inv_def)
  have oth: "p = y \<or> p = IniDone" if "p \<in> set ((inits s)[j := y])" for p y
    using others_done [OF _ j nd that] f(4) by (simp add: initialising_def)
  let ?t = "s\<lparr>inits := (inits s)[j := IniDone]\<rparr>"
  have "\<not> is_go p" if "p \<in> set (inits ?t)" for p
    using oth [of p IniDone] that by auto
  then have "going ?t = 0" by (simp add: going_def filter_empty_conv)
  with count_update(2) [OF j, of ?t IniDone]
  have g0: "going s = (if is_go (inits s ! j) then 1 else 0)" by simp
  show ?thesis
  proof (cases "inits s ! j")
    case (IniHandlers hdls)
    with assms(2) j have s': "s' = s\<lparr>busOf := (busOf s)\<lparr>iteratorHandlers := hdls\<rparr>,
        inits := (inits s)[j := IniQueue]\<rparr>"
      by (simp add: body_at)
    then have i': "inits s' = (inits s)[j := IniQueue]" by simp
    have c: "live s' = live s" "signalling s' = signalling s" "sentinels s' = sentinels s"
      by (simp_all add: live_def signalling_def sentinels_def s')
    from count_update [OF j i'] IniHandlers
    have n: "initialising s' = initialising s" "going s' = going s" by simp_all
    have st: "\<forall>p\<in>set (inits s'). stage_ok s' p"
    proof
      fix p assume "p \<in> set (inits s')"
      with oth [of p IniQueue] i' have "p = IniQueue \<or> p = IniDone" by simp
      with cur IniHandlers c(1) show "stage_ok s' p" by auto
    qed
    from assms(1) f st show ?thesis
      unfolding drain_inv_def c n by (simp add: s')
  next
    case IniQueue
    with assms(2) j obtain ch where ch: "make_chan (iteratorQueueBuffer (busOf s)) = Some ch"
      and s': "s' = s\<lparr>busOf := (busOf s)\<lparr>iteratorQueryQueue := ch\<rparr>,
        inits := (inits s)[j := IniTest 0]\<rparr>"
      by (auto simp: body_at split: option.splits)
    from s' have i': "inits s' = (inits s)[j := IniTest 0]" by simp
    have c: "live s' = live s" "signalling s' = signalling s" "sentinels s' = 0"
      using make_chan_empty [OF ch] by (simp_all add: live_def signalling_def sentinels_def s')
    from count_update [OF j i'] IniQueue
    have n: "initialising s' = initialising s" "going s' = going s" by simp_all
    have q: "iteratorQueryQueue (busOf s') \<noteq> NilChan"
      using make_chan_not_nil [OF ch] by (simp add: s')
    have st: "\<forall>p\<in>set (inits s'). stage_ok s' p"
    proof
      fix p assume "p \<in> set (inits s')"
      with oth [of p "IniTest 0"] i' have "p = IniTest 0 \<or> p = IniDone" by simp
      with cur IniQueue c(1) q show "stage_ok s' p" by auto
    qed
    from assms(1) f st q show ?thesis
      unfolding drain_inv_def c n by (simp add: s')
  next
    case (IniTest i)
    let ?y = "if int i < iteratorWorkerPoolSize (busOf s) then IniUp i else IniDone"
    from IniTest assms(2) j have s': "s' = s\<lparr>inits := (inits s)[j := ?y]\<rparr>"
      by (simp add: body_at)
    then have i': "inits s' = (inits s)[j := ?y]" by simp
    have c: "live s' = live s" "signalling s' = signalling s" "sentinels s' = sentinels s"
      by (simp_all add: live_def signalling_def sentinels_def s')
    from count_update [OF j i'] IniTest one
    have n: "initialising s' = (if int i < iteratorWorkerPoolSize (busOf s) then 1 else 0)"
      "going s' = going s" by (simp_all split: if_splits)
    have st: "\<forall>p\<in>set (inits s'). stage_ok s' p"
    proof
      fix p assume "p \<in> set (inits s')"
      with oth [of p ?y] i' have "p = ?y \<or> p = IniDone" by simp
      with cur IniTest c(1) show "stage_ok s' p" by (auto simp: s' split: if_splits)
    qed
    from assms(1) f st show ?thesis
      unfolding drain_inv_def c n by (simp add: s')
  next
    case (IniUp i)
    with assms(2) j have s': "s' = s\<lparr>busOf := iteratorWorkerUp (busOf s),
        inits := (inits s)[j := IniGo i]\<rparr>"
      by (simp add: body_at)
    then have i': "inits s' = (inits s)[j := IniGo i]" by simp
    have c: "live s' = live s" "signalling s' = signalling s" "sentinels s' = sentinels s"
      by (simp_all add: live_def signalling_def sentinels_def s' iteratorWorkerUp_def)
    from count_update [OF j i'] IniUp g0
    have n: "initialising s' = initialising s" "going s' = 1" "going s = 0" by simp_all
    from cur IniUp have k: "live s = i" "int i < iteratorWorkerPoolSize (busOf s)"
      "iteratorQueryQueue (busOf s) \<noteq> NilChan" by simp_all
    from f(8) n(3) k(1) have "unat (iteratorWorkers (busOf s)) = i" by simp
    with k(2) f(3) have "int (unat (iteratorWorkers (busOf s))) + 1 < 2 ^ 32" by simp
    from unat_up [OF this] f(8) n(3)
    have u: "unat (iteratorWorkers (busOf s) + 1) = Suc (live s)" by simp
    have st: "\<forall>p\<in>set (inits s'). stage_ok s' p"
    proof
      fix p assume "p \<in> set (inits s')"
      with oth [of p "IniGo i"] i' have "p = IniGo i \<or> p = IniDone" by simp
      with k c(1) show "stage_ok s' p" by (auto simp: s' iteratorWorkerUp_def)
    qed
    from assms(1) f st u show ?thesis
      unfolding drain_inv_def c n(1,2) by (simp add: s' iteratorWorkerUp_def)
  next
    case (IniGo i)
    with assms(2) j have s': "s' = s\<lparr>pool := pool s @ [WReceive],
        inits := (inits s)[j := IniTest (Suc i)]\<rparr>"
      by (simp add: body_at)
    then have i': "inits s' = (inits s)[j := IniTest (Suc i)]" by simp
    have c: "live s' = Suc (live s)" "signalling s' = signalling s" "sentinels s' = sentinels s"
      by (simp_all add: live_def signalling_def sentinels_def s')
    from count_update [OF j i'] IniGo g0
    have n: "initialising s' = initialising s" "going s' = 0" "going s = 1" by simp_all
    from cur IniGo have k: "live s = i" "iteratorQueryQueue (busOf s) \<noteq> NilChan" by simp_all
    have st: "\<forall>p\<in>set (inits s'). stage_ok s' p"
    proof
      fix p assume "p \<in> set (inits s')"
      with oth [of p "IniTest (Suc i)"] i' have "p = IniTest (Suc i) \<or> p = IniDone" by simp
      with k c(1) show "stage_ok s' p" by (auto simp: s')
    qed
    from assms(1) f st k n(3) show ?thesis
      unfolding drain_inv_def c n(1,2) by (simp add: s')
  next
    case IniDone
    with nd show ?thesis by simp
  qed
qed

lemma step_inv:
  assumes "step a s = Some s'" and "secluded s a" and "drain_inv s"
  shows "drain_inv s'"
proof (cases a)
  case (CallHandlers hdls)
  with assms(1) inv_setters(1) [OF assms(3)] show ?thesis by auto
next
  case (CallErrorHandlers hdls)
  with assms(1) inv_setters(2) [OF assms(3)] show ?thesis by auto
next
  case (CallCacheAdapters adps)
  with assms(1) inv_setters(5) [OF assms(3), where adps = adps] show ?thesis
    by (auto split: prod.splits)
next
  case (CallIteratorWorkerPoolSize n)
  with assms(1) inv_IteratorWorkerPoolSize [OF assms(3)] show ?thesis by auto
next
  case (CallIteratorQueueBuffer n)
  with assms(1) inv_setters(3) [OF assms(3)] show ?thesis by auto
next
  case (CallIteratorResultBuffer n)
  with assms(1) inv_setters(4) [OF assms(3)] show ?thesis by auto
next
  case (CallInitializeIteratorHandlers hdls)
  with assms have "s' = InitializeIteratorHandlers s hdls" "sd s = SdIdle"
    "iteratorWorkerPoolSize (busOf s) < 2 ^ 32" by simp_all
  with inv_InitializeIteratorHandlers [OF assms(3) this(2,3)] show ?thesis by simp
next
  case (CallQuery now qry)
  with assms(1) inv_setters(6) [OF assms(3)] show ?thesis
    by (auto split: prod.splits)
next
  case (CallIteratorQuery qry)
  with assms(1) inv_setters(7) [OF assms(3)] show ?thesis by auto
next
  case CallShutdown
  with assms(1,2) inv_Shutdown [OF assms(3)] show ?thesis by auto
next
  case (StepInitialize j)
  with assms(1) have "InitializeIteratorHandlers_body s j = Some s'" by simp
  from inv_body [OF assms(3) this] show ?thesis .
next
  case (StepEnqueue k)
  with assms(1) have "IteratorQuery_enqueue s k = Some s'" by simp
  from inv_enqueue [OF assms(3) this] show ?thesis .
next
  case (StepWorker i attached)
  with assms(1) have "iteratorWorker s i attached = Some s'" by simp
  from inv_iteratorWorker [OF assms(3) this] show ?thesis .
next
  case (StepAcknowledge i)
  with assms(1) have "acknowledge s i = Some s'" by simp
  from inv_acknowledge [OF assms(3) this] show ?thesis .
next
  case StepShutdown
  with assms(1) have "shutdown s = Some s'" by simp
  from inv_shutdown [OF assms(3) this] show ?thesis .
qed

lemma inv_start: "drain_inv (start procs mem)"
  by (simp add: drain_inv_def counts start_def NewBus_def)

lemma run_inv:
  "run acts s = Some s' \<Longrightarrow> apart s acts \<Longrightarrow> drain_inv s \<Longrightarrow> drain_inv s'"
proof (induction acts arbitrary: s)
  case Nil
  then show ?case by simp
next
  case (Cons a acts)
  then obtain s1 where s1: "step a s = Some s1" "run acts s1 = Some s'"
    by (auto split: option.splits)
  with Cons.prems have "secluded s a" "apart s1 acts" by auto
  with step_inv [OF s1(1) _ Cons.prems(3)] Cons.IH [OF s1(2)] show ?case by blast
qed

lemma inv_reached:
  "run acts (start procs mem) = Some s \<Longrightarrow> apart (start procs mem) acts \<Longrightarrow> drain_inv s"
  using run_inv inv_start by blast

lemma secluded_admissible: "secluded s a \<Longrightarrow> admissible s a"
  by (cases a) simp_all

lemma apart_orderly: "apart s acts \<Longrightarrow> orderly s acts"
proof (induction acts arbitrary: s)
  case Nil
  then show ?case by simp
next
  case (Cons a acts)
  then show ?case by (auto simp: secluded_admissible split: option.splits)
qed

lemma filter_witness: "0 < length (filter P xs) \<Longrightarrow> \<exists>i<length xs. P (xs ! i)"
proof -
  assume "0 < length (filter P xs)"
  then have "filter P xs \<noteq> []" by simp
  then obtain x where "x \<in> set xs" "P x" by (auto simp: filter_empty_conv)
  then show ?thesis by (auto simp: in_set_conv_nth)
qed

lemma receiving_worker:
  assumes "0 < live s" and "signalling s = 0"
  shows "\<exists>i<length (pool s). pool s ! i = WReceive"
proof -
  from assms(1) filter_witness [of "\<lambda>w. w \<noteq> WExited" "pool s"]
  obtain i where i: "i < length (pool s)" "pool s ! i \<noteq> WExited" by (auto simp: live_def)
  from assms(2) have "filter (\<lambda>w. w = WSignal) (pool s) = []" by (simp add: signalling_def)
  with i(1) have "pool s ! i \<noteq> WSignal" by (auto simp: filter_empty_conv)
  with i show ?thesis by (cases "pool s ! i") auto
qed

lemma iteratorWorker_enabled:
  assumes "i < length (pool s)" and "pool s ! i = WReceive"
    and "buffered (iteratorQueryQueue (busOf s)) \<noteq> []"
  shows "iteratorWorker s i attached \<noteq> None"
proof -
  from assms(3) obtain n x xs where "iteratorQueryQueue (busOf s) = Chan n (x # xs)"
    by (cases "iteratorQueryQueue (busOf s)" rule: recv.cases) auto
  with assms(1,2) show ?thesis
    by (cases x) (auto simp: iteratorWorker_def split: prod.splits)
qed

lemma drain_progress:
  assumes "drain_inv s" and "sd s \<noteq> SdIdle"
  shows "step StepShutdown s \<noteq> None
       \<or> (\<exists>i. step (StepWorker i attached) s \<noteq> None)
       \<or> (\<exists>i. step (StepAcknowledge i) s \<noteq> None)"
proof (cases "sd s")
  case SdIdle
  with assms(2) show ?thesis by simp
next
  case SdSend
  with assms(1) have l: "0 < live s" and g: "signalling s = 0"
    and c: "iteratorQueryQueue (busOf s) \<noteq> NilChan"
    by (auto simp: drain_inv_def)
  from c obtain n buf where q: "iteratorQueryQueue (busOf s) = Chan n buf"
    by (cases "iteratorQueryQueue (busOf s)") auto
  show ?thesis
  proof (cases "int (length buf) < max 1 n")
    case True
    with SdSend q show ?thesis by (simp add: shutdown_at)
  next
    case False
    then have "buf \<noteq> []" by auto
    with q have b: "buffered (iteratorQueryQueue (busOf s)) \<noteq> []" by simp
    from receiving_worker [OF l g] obtain i where "i < length (pool s)" "pool s ! i = WReceive"
      by blast
    from iteratorWorker_enabled [OF this b, of attached] show ?thesis by auto
  qed
next
  case SdRecv
  with assms(1) have l: "0 < live s" and one: "sentinels s + signalling s = 1"
    by (auto simp: drain_inv_def)
  show ?thesis
  proof (cases "signalling s = 0")
    case True
    with one have "sentinels s = 1" by simp
    then have b: "buffered (iteratorQueryQueue (busOf s)) \<noteq> []"
      by (auto simp: sentinels_def)
    from receiving_worker [OF l True] obtain i where "i < length (pool s)" "pool s ! i = WReceive"
      by blast
    from iteratorWorker_enabled [OF this b, of attached] show ?thesis by auto
  next
    case False
    then have "0 < length (filter (\<lambda>w. w = WSignal) (pool s))" by (simp add: signalling_def)
    from filter_witness [OF this] obtain i where "i < length (pool s)" "pool s ! i = WSignal"
      by blast
    with SdRecv have "acknowledge s i \<noteq> None" by (simp add: acknowledge_def)
    then show ?thesis by auto
  qed
qed (simp_all add: shutdown_at)

lemma recv_length:
  "recv ch = Some (x, ch') \<Longrightarrow> length (buffered ch) = Suc (length (buffered ch'))"
  by (cases ch rule: recv.cases) auto

lemma send_length:
  "send ch x = Some ch' \<Longrightarrow> length (buffered ch') = Suc (length (buffered ch))"
  by (cases ch) (auto split: if_splits)

lemma drain_decreases:
  assumes "drain_inv s" and "own_step a" and "step a s = Some s'"
  shows "(drain_measure s', drain_measure s) \<in> less_than <*lex*> less_than <*lex*> less_than"
proof (cases a)
  case StepShutdown
  with assms(3) have sh: "shutdown s = Some s'" by simp
  show ?thesis
  proof (cases "sd s")
    case SdSend
    with sh obtain ch where "s' = s\<lparr>busOf := (busOf s)\<lparr>iteratorQueryQueue := ch\<rparr>, sd := SdRecv\<rparr>"
      by (auto simp: shutdown_at split: option.splits)
    with SdSend show ?thesis by (simp add: drain_measure_def)
  next
    case SdDown
    with sh have s': "s' = s\<lparr>busOf := iteratorWorkerDown (busOf s), sd := SdTest\<rparr>"
      by (simp add: shutdown_at)
    from assms(1) SdDown have "initialising s = 0" by (auto simp: drain_inv_def)
    from assms(1) SdDown none_going [OF this]
    have "unat (iteratorWorkers (busOf s)) = Suc (live s)"
      by (simp add: drain_inv_def)
    with unat_down [OF this] show ?thesis
      by (simp add: drain_measure_def s' iteratorWorkerDown_def word32_down)
  qed (use sh in \<open>auto simp: shutdown_at drain_measure_def split: if_splits\<close>)
next
  case (StepWorker i attached)
  with assms(3) have w: "iteratorWorker s i attached = Some s'" by simp
  then obtain x ch where r: "recv (iteratorQueryQueue (busOf s)) = Some (x, ch)"
    and s': "iteratorQueryQueue (busOf s') = ch" "iteratorWorkers (busOf s') = iteratorWorkers (busOf s)"
      "sd s' = sd s" "inflight s' = inflight s"
    by (auto simp: iteratorWorker_def split: if_splits option.splits prod.splits)
  from recv_length [OF r] s' show ?thesis by (simp add: drain_measure_def)
next
  case (StepAcknowledge i)
  with assms(3) show ?thesis
    by (auto simp: acknowledge_def drain_measure_def split: if_splits)
next
  case (StepEnqueue k)
  with assms(3) have e: "IteratorQuery_enqueue s k = Some s'" by simp
  then obtain ch where k: "k < length (inflight s)"
    and c: "send (iteratorQueryQueue (busOf s)) (Some (inflight s ! k)) = Some ch"
    and s': "s' = s\<lparr>busOf := (busOf s)\<lparr>iteratorQueryQueue := ch\<rparr>,
            inflight := take k (inflight s) @ drop (Suc k) (inflight s)\<rparr>"
    by (auto simp: IteratorQuery_enqueue_def enqueueIteratorQuery_def split: if_splits option.splits)
  from k send_length [OF c] show ?thesis by (auto simp: drain_measure_def s')
qed (use assms(2) in simp_all)


lemma run_append: "run (xs @ ys) s = (case run xs s of None \<Rightarrow> None | Some t \<Rightarrow> run ys t)"
  by (induction xs arbitrary: s) (auto split: option.splits)

lemma spawn_loop:
  assumes "j < length (inits s)" and "inits s ! j = IniTest i"
    and "nat (iteratorWorkerPoolSize (busOf s) - int i) = k"
  shows "run (replicate (3 * k + 1) (StepInitialize j)) s =
     Some (s\<lparr>busOf := (busOf s)\<lparr>iteratorWorkers := iteratorWorkers (busOf s) + of_nat k\<rparr>,
             pool := pool s @ replicate k WReceive,
             inits := (inits s)[j := IniDone]\<rparr>)"
  using assms
proof (induction k arbitrary: s i)
  case 0
  then have "\<not> int i < iteratorWorkerPoolSize (busOf s)" by simp
  with 0 show ?case by (simp add: body_at)
next
  case (Suc k)
  then have t: "int i < iteratorWorkerPoolSize (busOf s)" by simp
  let ?s3 = "s\<lparr>busOf := iteratorWorkerUp (busOf s), pool := pool s @ [WReceive],
                inits := (inits s)[j := IniTest (Suc i)]\<rparr>"
  have r3: "run [StepInitialize j, StepInitialize j, StepInitialize j] s = Some ?s3"
    using Suc.prems(1,2) t by (simp add: body_at)
  have "nat (iteratorWorkerPoolSize (busOf ?s3) - int (Suc i)) = k"
    using Suc.prems(3) by (simp add: iteratorWorkerUp_def)
  from Suc.IH [of ?s3 "Suc i", OF _ _ this] Suc.prems(1)
  have rk: "run (replicate (3 * k + 1) (StepInitialize j)) ?s3 =
     Some (s\<lparr>busOf := (busOf s)\<lparr>iteratorWorkers := iteratorWorkers (busOf s) + of_nat (Suc k)\<rparr>,
             pool := pool s @ replicate (Suc k) WReceive,
             inits := (inits s)[j := IniDone]\<rparr>)"
    by (simp add: iteratorWorkerUp_def add.assoc)
  have e: "3 * Suc k + 1 = Suc (Suc (Suc (3 * k + 1)))" by simp
  have eq: "replicate (3 * Suc k + 1) (StepInitialize j) =
          [StepInitialize j, StepInitialize j, StepInitialize j]
          @ replicate (3 * k + 1) (StepInitialize j)"
    unfolding e by simp
  have "run (replicate (3 * Suc k + 1) (StepInitialize j)) s =
        run (replicate (3 * k + 1) (StepInitialize j)) ?s3"
    by (simp only: eq run_append r3 option.case)
  with rk show ?case by (simp only:)
qed

lemma restart:
  assumes "initialized (busOf s) = 0" and "0 \<le> iteratorQueueBuffer (busOf s)"
    and "n = nat (iteratorWorkerPoolSize (busOf s))"
  shows "run (CallInitializeIteratorHandlers hdls
              # replicate (3 * n + 3) (StepInitialize (length (inits s)))) s =
     Some (s\<lparr>busOf := (busOf s)\<lparr>initialized := 1, iteratorHandlers := hdls,
                  iteratorQueryQueue := Chan (iteratorQueueBuffer (busOf s)) [],
                  iteratorWorkers := iteratorWorkers (busOf s) + of_nat n\<rparr>,
             pool := pool s @ replicate n WReceive,
             inits := inits s @ [IniDone]\<rparr>)"
proof -
  let ?j = "length (inits s)"
  let ?s2 = "s\<lparr>busOf := (busOf s)\<lparr>initialized := 1, iteratorHandlers := hdls,
                  iteratorQueryQueue := Chan (iteratorQueueBuffer (busOf s)) []\<rparr>,
               inits := inits s @ [IniTest 0]\<rparr>"
  have r2: "run [CallInitializeIteratorHandlers hdls, StepInitialize ?j, StepInitialize ?j] s =
            Some ?s2"
    using assms(1,2)
    by (simp add: InitializeIteratorHandlers_def initialize_def CompareAndSwapUint32_def
          InitializeIteratorHandlers_body_def make_chan_def)
  have "nat (iteratorWorkerPoolSize (busOf ?s2) - int 0) = n" using assms(3) by simp
  from spawn_loop [of ?j ?s2 0 n, OF _ _ this]
  have rn: "run (replicate (3 * n + 1) (StepInitialize ?j)) ?s2 =
     Some (s\<lparr>busOf := (busOf s)\<lparr>initialized := 1, iteratorHandlers := hdls,
                  iteratorQueryQueue := Chan (iteratorQueueBuffer (busOf s)) [],
                  iteratorWorkers := iteratorWorkers (busOf s) + of_nat n\<rparr>,
             pool := pool s @ replicate n WReceive,
             inits := inits s @ [IniDone]\<rparr>)"
    by simp
  have e: "3 * n + 3 = Suc (Suc (3 * n + 1))" by simp
  have eq: "CallInitializeIteratorHandlers hdls # replicate (3 * n + 3) (StepInitialize ?j) =
          [CallInitializeIteratorHandlers hdls, StepInitialize ?j, StepInitialize ?j]
          @ replicate (3 * n + 1) (StepInitialize ?j)"
    unfolding e by simp
  have "run (CallInitializeIteratorHandlers hdls # replicate (3 * n + 3) (StepInitialize ?j)) s =
        run (replicate (3 * n + 1) (StepInitialize ?j)) ?s2"
    by (simp only: eq run_append r2 option.case)
  with rn show ?thesis by (simp only:)
qed

lemma drainedSystem_reached:
  "run (drainRun @ drainRest @ [StepShutdown]) (start 8 (acceptingAdapter 1)) = Some drainedSystem"
  by (simp add: pool_defs eval_defs)

lemma drainedSystem_orderly:
  "orderly (start 8 (acceptingAdapter 1)) (drainRun @ drainRest @ [StepShutdown])"
  by (simp add: pool_defs eval_defs)

lemma drainedSystem_apart:
  "apart (start 8 (acceptingAdapter 1)) (drainRun @ drainRest @ [StepShutdown])"
  by (simp add: pool_defs eval_defs initialising_def)

section \<open>The cache write-back\<close>

text \<open>
  C1, as amended.  For a Cacheable query with a strictly positive cache duration,
  \<^verbatim>\<open>handleCache\<close> sets the expiry of the result to the instant \<^verbatim>\<open>time.Now()\<close> read at the
  write-back plus the duration, and calls \<^verbatim>\<open>Set\<close> on the adapters in registration order up
  to and including the first adapter that accepts (on all of them when none accepts); the
  adapters after the first accepting one are not called.  The result is marked cached
  exactly when some adapter accepts it.  \<^verbatim>\<open>query\<close> performs the write-back as its last act
  exactly in the runs that end without error, on a result that is handled; a run that
  ends with an error calls no \<^verbatim>\<open>Set\<close>.
\<close>

theorem handleCache_write_back:
  assumes "cacheable qry = Some cq" and "0 < CacheDuration cq"
  shows "handleCache bus now qry res =
           (let res1 = expires res (now + CacheDuration cq) in
              (if \<exists>adp\<in>set (cacheAdapters bus). adp_Set adp qry res1 then cached res1 now else res1,
               map (\<lambda>adp. EvSet (adp_id adp)) (asked (cacheAdapters bus) qry res1)))
       \<and> res_expiresAt (fst (handleCache bus now qry res)) = Some (now + CacheDuration cq)
       \<and> (query bus now qry res = (None, r, evs) \<longrightarrow>
            (\<exists>res0 evs0. isHandled res0 \<and> r = fst (handleCache bus now qry res0)
               \<and> evs = evs0 @ snd (handleCache bus now qry res0) \<and> (\<forall>ev\<in>set evs0. \<not> is_Set ev)))
       \<and> (query bus now qry res = (Some err, r, evs) \<longrightarrow> (\<forall>ev\<in>set evs. \<not> is_Set ev))"
proof -
  have eq: "handleCache bus now qry res =
           (let res1 = expires res (now + CacheDuration cq) in
              (if \<exists>adp\<in>set (cacheAdapters bus). adp_Set adp qry res1 then cached res1 now else res1,
               map (\<lambda>adp. EvSet (adp_id adp)) (asked (cacheAdapters bus) qry res1)))"
    using assms by (simp add: handleCache_def handleCache_loop_False Let_def)
  have ex: "res_expiresAt (fst (handleCache bus now qry res)) = Some (now + CacheDuration cq)"
    by (simp add: eq Let_def expires_def cached_def)
  have ok: "query bus now qry res = (None, r, evs) \<longrightarrow>
            (\<exists>res0 evs0. isHandled res0 \<and> r = fst (handleCache bus now qry res0)
               \<and> evs = evs0 @ snd (handleCache bus now qry res0) \<and> (\<forall>ev\<in>set evs0. \<not> is_Set ev))"
    unfolding query_def using query_loop_success by blast
  have ko: "query bus now qry res = (Some err, r, evs) \<longrightarrow> (\<forall>ev\<in>set evs. \<not> is_Set ev)"
    unfolding query_def using query_loop_error by blast
  from eq ex ok ko show ?thesis by blast
qed

text \<open>The write-back of the test's cacheable query on a bus with a refusing adapter
  followed by two accepting ones.\<close>

theorem handleCache_write_back_witness:
  "cacheable testCacheQuery = Some \<lparr>CacheKey = ''CACHE-KEY'', CacheDuration = 1000000000\<rparr>
   \<and> handleCache cacheBus 5 testCacheQuery (Add (Add newResult ''bar'') ''bar'') =
       (\<lparr>res_data = [''bar'', ''bar''], res_handled = True, res_stopped = False,
          res_fromCache = False, res_cachedAt = Some 5, res_expiresAt = Some 1000000005\<rparr>,
        [EvSet 1, EvSet 2])"
  using handleCache_write_back [of testCacheQuery "\<lparr>CacheKey = ''CACHE-KEY'', CacheDuration = 1000000000\<rparr>"
              cacheBus 5 "Add (Add newResult ''bar'') ''bar''"]
  by (simp add: NewBus_def fixtures asked_def expires_def cached_def newResult_def Let_def)

text \<open>C1 as stated fails: with the adapters 1 (refusing), 2 and 3 (accepting) registered,
  a successful dispatch calls \<^verbatim>\<open>Set\<close> on 1 and 2 and never on 3.\<close>

theorem handleCache_skips_adapters_after_accept:
  "Query cacheBus 5 (Some testCacheQuery) =
     (Some \<lparr>res_data = [''bar'', ''bar''], res_handled = True, res_stopped = False,
        res_fromCache = False, res_cachedAt = Some 5, res_expiresAt = Some 1000000005\<rparr>,
      None, [EvGet 1, EvGet 2, EvGet 3, EvHandle 1, EvSet 1, EvSet 2])
   \<and> map adp_id (cacheAdapters cacheBus) = [1, 2, 3]"
  by (simp add: eval_defs)

section \<open>The handler chain\<close>



section \<open>The cache read path\<close>

text \<open>
  C5.  For a Cacheable query, \<^verbatim>\<open>Query\<close> asks the cache adapters in registration order.
  The first adapter that returns a result wins: that result is returned as it is, marked as
  served from cache, with no error, and the only calls made are the \<^verbatim>\<open>Get\<close> calls up to
  that adapter, so no handler runs.  An adapter that returns nothing is a miss; when all
  adapters miss, \<^verbatim>\<open>Query\<close> is the dispatch of the handlers on a new result.
\<close>

theorem Query_cache_read_path:
  assumes "cacheable qry = Some cq"
  shows "(cacheAdapters bus = pre @ adp # post \<and> (\<forall>p\<in>set pre. adp_Get p qry = None)
            \<and> adp_Get adp qry = Some r
          \<longrightarrow> Query bus now (Some qry) =
                (Some (loadedFromCache r), None, map (\<lambda>p. EvGet (adp_id p)) (pre @ [adp])))
       \<and> ((\<forall>p\<in>set (cacheAdapters bus). adp_Get p qry = None)
          \<longrightarrow> Query bus now (Some qry) =
                (case query bus now qry (newCacheableResult qry) of
                   (err, res, evs) \<Rightarrow>
                     (Some res, err, map (\<lambda>p. EvGet (adp_id p)) (cacheAdapters bus) @ evs)))"
  using assms
  by (auto simp: Query_def isValid_def result_def result_loop_hit result_loop_miss split: prod.splits)

text \<open>A hit on the second of three adapters, and a miss on all three.\<close>

theorem Query_cache_read_path_witness:
  "Query holdingBus 5 (Some testCacheQuery) =
     (Some \<lparr>res_data = [''bar''], res_handled = True, res_stopped = False, res_fromCache = True,
         res_cachedAt = None, res_expiresAt = None\<rparr>, None, [EvGet 1, EvGet 2])
   \<and> Query cacheBus 5 (Some testCacheQuery) =
     (Some \<lparr>res_data = [''bar'', ''bar''], res_handled = True, res_stopped = False,
        res_fromCache = False, res_cachedAt = Some 5, res_expiresAt = Some 1000000005\<rparr>,
      None, [EvGet 1, EvGet 2, EvGet 3, EvHandle 1, EvSet 1, EvSet 2])"
proof -
  have a: "Query holdingBus 5 (Some testCacheQuery) =
     (Some \<lparr>res_data = [''bar''], res_handled = True, res_stopped = False, res_fromCache = True,
         res_cachedAt = None, res_expiresAt = None\<rparr>, None, [EvGet 1, EvGet 2])"
    using Query_cache_read_path [where qry = testCacheQuery and bus = holdingBus and pre = "[refusingAdapter 1]"
        and adp = "holdingAdapter 2 (Add newResult ''bar'')" and post = "[acceptingAdapter 3]"
        and r = "Add newResult ''bar''" and now = 5
        and cq = "\<lparr>CacheKey = ''CACHE-KEY'', CacheDuration = 1000000000\<rparr>", THEN conjunct1]
    by (simp add: eval_defs)
  have b: "Query cacheBus 5 (Some testCacheQuery) =
     (Some \<lparr>res_data = [''bar'', ''bar''], res_handled = True, res_stopped = False,
        res_fromCache = False, res_cachedAt = Some 5, res_expiresAt = Some 1000000005\<rparr>,
      None, [EvGet 1, EvGet 2, EvGet 3, EvHandle 1, EvSet 1, EvSet 2])"
    using Query_cache_read_path [where qry = testCacheQuery and bus = cacheBus and now = 5
        and cq = "\<lparr>CacheKey = ''CACHE-KEY'', CacheDuration = 1000000000\<rparr>", THEN conjunct2]
    by (simp add: eval_defs)
  from a b show ?thesis by blast
qed

section \<open>Failures of the synchronous query\<close>

text \<open>
  C8, as amended.  A \<^verbatim>\<open>Query\<close> call that fails returns a non-nil error, and the error is
  the last one reported to the error handlers.  For a \<^verbatim>\<open>nil\<close> query the error is
  \<^verbatim>\<open>InvalidQueryError\<close> and the returned result is \<^verbatim>\<open>nil\<close>; for every other failure the
  returned result is not \<^verbatim>\<open>nil\<close>.
\<close>

theorem Query_failure:
  "Query bus now None = (None, Some InvalidQueryError, error bus None InvalidQueryError)
   \<and> (Query bus now (Some qry) = (res, Some err, evs)
        \<longrightarrow> res \<noteq> None \<and> (\<exists>evs0. evs = evs0 @ error bus (Some qry) err))"
proof -
  have a: "Query bus now None = (None, Some InvalidQueryError, error bus None InvalidQueryError)"
    by (simp add: Query_def isValid_def)
  have b: "res \<noteq> None \<and> (\<exists>evs0. evs = evs0 @ error bus (Some qry) err)"
    if q: "Query bus now (Some qry) = (res, Some err, evs)"
  proof -
    obtain r c evs1 where r: "result bus qry = (r, c, evs1)" by (cases "result bus qry")
    show ?thesis
    proof (cases c)
      case True
      with q r show ?thesis by (simp add: Query_def isValid_def)
    next
      case False
      obtain e r' evs2 where l: "query bus now qry r = (e, r', evs2)" by (cases "query bus now qry r")
      with q r False have *: "res = Some r'" "e = Some err" "evs = evs1 @ evs2"
        by (simp_all add: Query_def isValid_def)
      from l * have "query_loop bus now (handlers bus) qry r = (Some err, r', evs2)"
        by (simp add: query_def)
      from query_loop_error [OF this] obtain evs0 where "evs2 = evs0 @ error bus (Some qry) err"
        by blast
      with * show ?thesis by auto
    qed
  qed
  from a b show ?thesis by blast
qed

text \<open>The failing handler of the tests.\<close>

theorem Query_failure_witness:
  "Query chainBus 5 (Some testQueryError) =
     (Some newResult, Some (HandlerError ''query failed''),
      [EvHandle 1, EvHandle 2, EvError 7 (Some testQueryError) (HandlerError ''query failed'')])
   \<and> Some newResult \<noteq> (None :: Result option)
   \<and> (\<exists>evs0. [EvHandle 1, EvHandle 2, EvError 7 (Some testQueryError) (HandlerError ''query failed'')]
         = evs0 @ error chainBus (Some testQueryError) (HandlerError ''query failed''))"
proof -
  have q: "Query chainBus 5 (Some testQueryError) =
     (Some newResult, Some (HandlerError ''query failed''),
      [EvHandle 1, EvHandle 2, EvError 7 (Some testQueryError) (HandlerError ''query failed'')])"
    by (simp add: eval_defs)
  from Query_failure [of chainBus 5 testQueryError "Some newResult" "HandlerError ''query failed''"
      "[EvHandle 1, EvHandle 2, EvError 7 (Some testQueryError) (HandlerError ''query failed'')]"] q
  show ?thesis by blast
qed

text \<open>C8 as stated fails: for a \<^verbatim>\<open>nil\<close> query the caller receives no result at all.\<close>

theorem Query_nil_query_returns_nil_result:
  "Query chainBus 5 None = (None, Some InvalidQueryError, [EvError 7 None InvalidQueryError])"
  by (simp add: eval_defs)

section \<open>Replacing the cache adapters\<close>

text \<open>
  C9.  \<^verbatim>\<open>CacheAdapters\<close> calls \<^verbatim>\<open>Shutdown\<close> on every adapter registered before, in
  registration order, and installs the new list; on a bus just made by \<^verbatim>\<open>NewBus\<close> the
  adapter shut down is the default in-memory adapter.
\<close>

theorem CacheAdapters_shuts_down_previous:
  "CacheAdapters bus adps =
     (bus\<lparr>cacheAdapters := adps\<rparr>, map (\<lambda>adp. EvShutdown (adp_id adp)) (cacheAdapters bus))
   \<and> CacheAdapters (NewBus procs mem) adps =
     ((NewBus procs mem)\<lparr>cacheAdapters := adps\<rparr>, [EvShutdown (adp_id mem)])
   \<and> step (CallCacheAdapters adps) s =
     Some (s\<lparr>busOf := (busOf s)\<lparr>cacheAdapters := adps\<rparr>,
             trace := trace s @ map (\<lambda>adp. EvShutdown (adp_id adp)) (cacheAdapters (busOf s))\<rparr>)"
  by (simp add: CacheAdapters_def NewBus_def)

section \<open>A pending query and its listener\<close>

text \<open>
  C7.  A worker that receives a pending query from the queue waits for a listener.  When
  none attaches within the timeout, the only calls the worker makes are the reports of
  \<^verbatim>\<open>QueryTimedOut\<close> to the error handlers: no handler runs, and the iterator result is
  left as it was.  When a listener attaches in time, the worker runs the streaming
  handler chain and then closes the iterator result.
\<close>

theorem iteratorWorker_waits_for_listener:
  assumes "i < length (pool s)" and "pool s ! i = WReceive"
    and "recv (iteratorQueryQueue (busOf s)) = Some (Some penQry, ch)"
  shows "iteratorWorker s i False =
           Some (s\<lparr>busOf := (busOf s)\<lparr>iteratorQueryQueue := ch\<rparr>,
                   served := served s @ [pen_res penQry],
                   trace := trace s @
                     map (\<lambda>errHdl. EvError errHdl (Some (pen_qry penQry)) (ErrorQueryTimedOut (pen_qry penQry)))
                       (errorHandlers (busOf s))\<rparr>)
       \<and> iteratorWorker s i True =
           (case iteratorQuery (busOf s) (pen_qry penQry) (pen_res penQry) of
              (res, evs) \<Rightarrow>
                Some (s\<lparr>busOf := (busOf s)\<lparr>iteratorQueryQueue := ch\<rparr>,
                        served := served s @ [close res],
                        trace := trace s @ evs\<rparr>))
       \<and> it_closed (close (fst (iteratorQuery (busOf s) (pen_qry penQry) (pen_res penQry))))"
  using assms
  by (simp add: iteratorWorker_def iteratorWorker_body_def error_def close_def split: prod.splits)

text \<open>Both cases for the first worker of a bus with one pending query.\<close>

theorem iteratorWorker_waits_for_listener_witness:
  "map_option trace (iteratorWorker waitingSystem 0 False) =
     Some [EvError 7 (Some testQueryStruct) (ErrorQueryTimedOut testQueryStruct)]
   \<and> map_option served (iteratorWorker waitingSystem 0 False) = Some [newIteratorResult 0]
   \<and> map_option trace (iteratorWorker waitingSystem 0 True) = Some [EvIterHandle 1]
   \<and> map_option served (iteratorWorker waitingSystem 0 True) =
       Some [\<lparr>it_items = [''bar''], it_handled = True, it_stopped = False, it_closed = True\<rparr>]"
  using iteratorWorker_waits_for_listener [of 0 waitingSystem "\<lparr>pen_qry = testQueryStruct, pen_res = newIteratorResult 0\<rparr>" "Chan 100 []"]
  by (simp add: eval_defs)

text \<open>
  C10.  A worker that gives up on a pending query because no listener attached leaves the
  iterator result as it found it, and whatever happens afterwards leaves it so: the
  result is never closed by the bus.
\<close>

theorem timed_out_result_stays_open:
  assumes "i < length (pool s)" and "pool s ! i = WReceive"
    and "recv (iteratorQueryQueue (busOf s)) = Some (Some penQry, ch)"
    and "run (StepWorker i False # acts) s = Some s'"
  shows "length (served s) < length (served s')
       \<and> served s' ! length (served s) = pen_res penQry
       \<and> it_closed (served s' ! length (served s)) = it_closed (pen_res penQry)"
proof -
  let ?s1 = "s\<lparr>busOf := (busOf s)\<lparr>iteratorQueryQueue := ch\<rparr>,
                   served := served s @ [pen_res penQry],
                   trace := trace s @
                     error (busOf s) (Some (pen_qry penQry)) (ErrorQueryTimedOut (pen_qry penQry))\<rparr>"
  have w: "step (StepWorker i False) s = Some ?s1"
    using assms(1-3) by (simp add: iteratorWorker_def iteratorWorker_body_def)
  with assms(4) have "run acts ?s1 = Some s'" by simp
  from run_served [OF this] obtain more where "served s' = served s @ [pen_res penQry] @ more"
    by auto
  then have a: "length (served s) < length (served s')"
    and b: "served s' ! length (served s) = pen_res penQry"
    by (simp_all add: nth_append)
  from a b show ?thesis by simp
qed

text \<open>The first worker gives up on the pending query; the bus is then shut down.\<close>

theorem timed_out_result_stays_open_witness:
  "\<exists>s'. run [StepWorker 0 False, CallShutdown, StepShutdown, StepShutdown, StepWorker 1 False,
             StepAcknowledge 1, StepShutdown] waitingSystem = Some s'
      \<and> served s' ! 0 = newIteratorResult 0 \<and> \<not> it_closed (served s' ! 0)"
proof -
  have "\<exists>s'. run [StepWorker 0 False, CallShutdown, StepShutdown, StepShutdown, StepWorker 1 False,
             StepAcknowledge 1, StepShutdown] waitingSystem = Some s'"
    by (simp add: pool_defs eval_defs)
  then obtain s' where r: "run (StepWorker 0 False # [CallShutdown, StepShutdown, StepShutdown,
      StepWorker 1 False, StepAcknowledge 1, StepShutdown]) waitingSystem = Some s'"
    by blast
  from timed_out_result_stays_open [of 0 waitingSystem "\<lparr>pen_qry = testQueryStruct, pen_res = newIteratorResult 0\<rparr>"
      "Chan 100 []", OF _ _ _ r]
  have "served s' ! 0 = newIteratorResult 0 \<and> \<not> it_closed (served s' ! 0)"
    by (simp add: eval_defs)
  with r show ?thesis by blast
qed

section \<open>The shutdown drain\<close>

text \<open>
  C6, as amended.  In every state that the bus reaches from \<^verbatim>\<open>NewBus\<close> when no execution
  of \<^verbatim>\<open>InitializeIteratorHandlers\<close> overlaps an execution of \<^verbatim>\<open>shutdown\<close> and the pool
  size fits the 32-bit counter: the counter of the workers is the number of workers that
  have not exited (plus one between an acknowledgment and the decrement, and plus one
  between \<^verbatim>\<open>iteratorWorkerUp\<close> and the start of the worker).  A call of \<^verbatim>\<open>Shutdown\<close> on
  the idle bus sets \<^verbatim>\<open>shuttingDown\<close> and starts \<^verbatim>\<open>shutdown\<close>, which goes round its loop
  as long as a worker is left: it pushes one \<^verbatim>\<open>nil\<close>, waits on \<^verbatim>\<open>closed\<close> until a worker
  that took a \<^verbatim>\<open>nil\<close> acknowledges and returns, which leaves one worker less, and
  decrements the counter; exactly one \<^verbatim>\<open>nil\<close> is outstanding while it waits, and none
  otherwise.  When no worker is left it leaves the loop, and only then, with every
  worker exited and the counter at zero, it calls \<^verbatim>\<open>Shutdown\<close> on every cache adapter,
  sets \<^verbatim>\<open>initialized\<close> to 0 and sets \<^verbatim>\<open>shuttingDown\<close> to 0.  On the bus that is idle and
  not initialised, a call of \<^verbatim>\<open>InitializeIteratorHandlers\<close> that runs to its end starts
  the pool again: the handlers are installed, the queue is a new empty channel, and as
  many new receiving workers as the pool size are started and counted.  The drain
  cannot get stuck and cannot go on for ever: while a shutdown executes, \<^verbatim>\<open>shutdown\<close> or
  a worker can take a step, and every step of \<^verbatim>\<open>shutdown\<close>, of a worker or of a sender
  on the queue decreases a well-founded measure.
\<close>

theorem shutdown_drain:
  assumes "run acts (start procs mem) = Some s" and "apart (start procs mem) acts"
  shows "unat (iteratorWorkers (busOf s)) = live s + (if sd s = SdDown then 1 else 0) + going s
       \<and> sentinels s + signalling s = (if sd s = SdRecv then 1 else 0)
       \<and> (sd s = SdIdle
            \<longrightarrow> step CallShutdown s =
                 Some (s\<lparr>busOf := (busOf s)\<lparr>shuttingDown := 1\<rparr>, sd := SdTest\<rparr>))
       \<and> (sd s = SdTest
            \<longrightarrow> step StepShutdown s =
                 Some (s\<lparr>sd := (if 0 < live s then SdSend else SdAdapters)\<rparr>))
       \<and> (sd s = SdSend
            \<longrightarrow> 0 < live s
                \<and> step StepShutdown s =
                    (case send (iteratorQueryQueue (busOf s)) None of
                       None \<Rightarrow> None
                     | Some ch \<Rightarrow>
                         Some (s\<lparr>busOf := (busOf s)\<lparr>iteratorQueryQueue := ch\<rparr>, sd := SdRecv\<rparr>)))
       \<and> (sd s = SdRecv
            \<longrightarrow> 0 < live s \<and> step StepShutdown s = None
                \<and> (step (StepAcknowledge i) s = Some t
                     \<longrightarrow> pool s ! i = WSignal
                         \<and> t = s\<lparr>pool := (pool s)[i := WExited], sd := SdDown\<rparr>
                         \<and> live s = Suc (live t)))
       \<and> (sd s = SdDown
            \<longrightarrow> step StepShutdown s =
                 Some (s\<lparr>busOf := (busOf s)\<lparr>iteratorWorkers := iteratorWorkers (busOf s) - 1\<rparr>,
                         sd := SdTest\<rparr>)
                \<and> unat (iteratorWorkers (busOf s) - 1) = live s)
       \<and> (sd s = SdAdapters \<or> sd s = SdResetInit \<or> sd s = SdResetShut
            \<longrightarrow> live s = 0 \<and> iteratorWorkers (busOf s) = 0)
       \<and> (sd s = SdAdapters
            \<longrightarrow> step StepShutdown s =
                 Some (s\<lparr>trace := trace s @ map (\<lambda>adp. EvShutdown (adp_id adp)) (cacheAdapters (busOf s)),
                         sd := SdResetInit\<rparr>))
       \<and> (sd s = SdResetInit
            \<longrightarrow> step StepShutdown s = Some (s\<lparr>busOf := (busOf s)\<lparr>initialized := 0\<rparr>, sd := SdResetShut\<rparr>))
       \<and> (sd s = SdResetShut
            \<longrightarrow> step StepShutdown s = Some (s\<lparr>busOf := (busOf s)\<lparr>shuttingDown := 0\<rparr>, sd := SdIdle\<rparr>)
                \<and> initialized (busOf s) = 0)
       \<and> (sd s = SdIdle \<and> initialized (busOf s) = 0 \<and> 0 \<le> iteratorQueueBuffer (busOf s)
              \<and> iteratorWorkerPoolSize (busOf s) < 2 ^ 32
              \<and> n = nat (iteratorWorkerPoolSize (busOf s))
            \<longrightarrow> live s = 0 \<and> iteratorWorkers (busOf s) = 0 \<and> shuttingDown (busOf s) = 0
                \<and> run (CallInitializeIteratorHandlers hdls
                        # replicate (3 * n + 3) (StepInitialize (length (inits s)))) s =
                    Some (s\<lparr>busOf := (busOf s)\<lparr>initialized := 1, iteratorHandlers := hdls,
                                 iteratorQueryQueue := Chan (iteratorQueueBuffer (busOf s)) [],
                                 iteratorWorkers := of_nat n\<rparr>,
                            pool := pool s @ replicate n WReceive,
                            inits := inits s @ [IniDone]\<rparr>)
                \<and> unat (of_nat n :: 32 word) = n
                \<and> live (s\<lparr>pool := pool s @ replicate n WReceive\<rparr>) = n)
       \<and> (sd s \<noteq> SdIdle
            \<longrightarrow> step StepShutdown s \<noteq> None
                \<or> (\<exists>i. step (StepWorker i attached) s \<noteq> None)
                \<or> (\<exists>i. step (StepAcknowledge i) s \<noteq> None))
       \<and> (own_step a \<and> step a s = Some u
            \<longrightarrow> (drain_measure u, drain_measure s) \<in> less_than <*lex*> less_than <*lex*> less_than)"
proof -
  from inv_reached [OF assms] have inv: "drain_inv s" .
  have pr: "sd s \<noteq> SdIdle
            \<longrightarrow> step StepShutdown s \<noteq> None
                \<or> (\<exists>i. step (StepWorker i attached) s \<noteq> None)
                \<or> (\<exists>i. step (StepAcknowledge i) s \<noteq> None)"
    using drain_progress [OF inv] by blast
  have de: "own_step a \<and> step a s = Some u
            \<longrightarrow> (drain_measure u, drain_measure s) \<in> less_than <*lex*> less_than <*lex*> less_than"
    using drain_decreases [OF inv] by blast
  have a: "unat (iteratorWorkers (busOf s)) = live s + (if sd s = SdDown then 1 else 0) + going s"
    and b: "sentinels s + signalling s = (if sd s = SdRecv then 1 else 0)"
    and c: "sd s = SdSend \<or> sd s = SdRecv \<longrightarrow> 0 < live s"
    and d0: "sd s = SdAdapters \<or> sd s = SdResetInit \<or> sd s = SdResetShut \<longrightarrow> live s = 0"
    and i01: "initialized (busOf s) = 0 \<or> initialized (busOf s) = 1"
    and sh: "shuttingDown (busOf s) = (if sd s = SdIdle then 0 else 1)"
    and r0: "sd s = SdResetShut \<longrightarrow> initialized (busOf s) = 0"
    and l0: "initialized (busOf s) = 0 \<longrightarrow> live s = 0"
    and z0: "0 < initialising s \<longrightarrow> sd s = SdIdle \<and> initialized (busOf s) = 1"
    using inv by (simp_all add: drain_inv_def)
  have g0: "going s = 0" if "sd s \<noteq> SdIdle \<or> initialized (busOf s) = 0"
  proof -
    from z0 that have "initialising s = 0" by auto
    from none_going [OF this] show ?thesis .
  qed
  have cs: "sd s = SdIdle
            \<longrightarrow> step CallShutdown s =
                 Some (s\<lparr>busOf := (busOf s)\<lparr>shuttingDown := 1\<rparr>, sd := SdTest\<rparr>)"
    using sh by (simp add: Shutdown_def CompareAndSwapUint32_def)
  have ts: "step StepShutdown s = Some (s\<lparr>sd := (if 0 < live s then SdSend else SdAdapters)\<rparr>)"
    if p: "sd s = SdTest"
  proof -
    from a g0 p have u: "unat (iteratorWorkers (busOf s)) = live s" by simp
    have "(0 < iteratorWorkers (busOf s)) = (0 < live s)"
      using u by (simp add: word_greater_zero_iff unat_eq_0 [symmetric] del: unat_eq_0)
    with p show ?thesis by (simp add: shutdown_at)
  qed
  have ss: "sd s = SdSend
            \<longrightarrow> 0 < live s
                \<and> step StepShutdown s =
                    (case send (iteratorQueryQueue (busOf s)) None of
                       None \<Rightarrow> None
                     | Some ch \<Rightarrow>
                         Some (s\<lparr>busOf := (busOf s)\<lparr>iteratorQueryQueue := ch\<rparr>, sd := SdRecv\<rparr>))"
    using c by (simp add: shutdown_at)
  have rs: "0 < live s \<and> step StepShutdown s = None
                \<and> (step (StepAcknowledge i) s = Some t
                     \<longrightarrow> pool s ! i = WSignal
                         \<and> t = s\<lparr>pool := (pool s)[i := WExited], sd := SdDown\<rparr>
                         \<and> live s = Suc (live t))"
    if p: "sd s = SdRecv"
  proof -
    have "pool s ! i = WSignal \<and> t = s\<lparr>pool := (pool s)[i := WExited], sd := SdDown\<rparr>
          \<and> live s = Suc (live t)"
      if q: "step (StepAcknowledge i) s = Some t"
    proof -
      from q have i: "i < length (pool s)" "pool s ! i = WSignal"
        and t: "t = s\<lparr>pool := (pool s)[i := WExited], sd := SdDown\<rparr>"
        by (auto simp: acknowledge_def split: if_splits)
      from filter_update_count [OF i(1), of "\<lambda>w. w \<noteq> WExited" WExited] i(2)
      have "live s = Suc (live t)" by (simp add: live_def t)
      with i t show ?thesis by simp
    qed
    with c p show ?thesis by (simp add: shutdown_at)
  qed
  have ds: "step StepShutdown s =
                 Some (s\<lparr>busOf := (busOf s)\<lparr>iteratorWorkers := iteratorWorkers (busOf s) - 1\<rparr>,
                         sd := SdTest\<rparr>)
                \<and> unat (iteratorWorkers (busOf s) - 1) = live s"
    if p: "sd s = SdDown"
  proof -
    from a g0 p have "unat (iteratorWorkers (busOf s)) = Suc (live s)" by simp
    from unat_down [OF this] p show ?thesis
      by (simp add: shutdown_at iteratorWorkerDown_def word32_down)
  qed
  have d: "live s = 0 \<and> iteratorWorkers (busOf s) = 0"
    if p: "sd s = SdAdapters \<or> sd s = SdResetInit \<or> sd s = SdResetShut"
  proof -
    from p have "sd s \<noteq> SdIdle" "sd s \<noteq> SdDown" by auto
    with a g0 d0 p have "unat (iteratorWorkers (busOf s)) = 0" by simp
    with d0 p show ?thesis by (simp add: unat_eq_0)
  qed
  have e: "sd s = SdAdapters
            \<longrightarrow> step StepShutdown s =
                 Some (s\<lparr>trace := trace s @ map (\<lambda>adp. EvShutdown (adp_id adp)) (cacheAdapters (busOf s)),
                         sd := SdResetInit\<rparr>)"
    by (simp add: shutdown_at)
  have f: "sd s = SdResetInit
            \<longrightarrow> step StepShutdown s = Some (s\<lparr>busOf := (busOf s)\<lparr>initialized := 0\<rparr>, sd := SdResetShut\<rparr>)"
    using i01 by (auto simp: shutdown_at CompareAndSwapUint32_def)
  have g: "sd s = SdResetShut
            \<longrightarrow> step StepShutdown s = Some (s\<lparr>busOf := (busOf s)\<lparr>shuttingDown := 0\<rparr>, sd := SdIdle\<rparr>)
                \<and> initialized (busOf s) = 0"
    using sh r0 by (auto simp: shutdown_at CompareAndSwapUint32_def)
  have h: "live s = 0 \<and> iteratorWorkers (busOf s) = 0 \<and> shuttingDown (busOf s) = 0
                \<and> run (CallInitializeIteratorHandlers hdls
                        # replicate (3 * n + 3) (StepInitialize (length (inits s)))) s =
                    Some (s\<lparr>busOf := (busOf s)\<lparr>initialized := 1, iteratorHandlers := hdls,
                                 iteratorQueryQueue := Chan (iteratorQueueBuffer (busOf s)) [],
                                 iteratorWorkers := of_nat n\<rparr>,
                            pool := pool s @ replicate n WReceive,
                            inits := inits s @ [IniDone]\<rparr>)
                \<and> unat (of_nat n :: 32 word) = n
                \<and> live (s\<lparr>pool := pool s @ replicate n WReceive\<rparr>) = n"
    if p: "sd s = SdIdle" "initialized (busOf s) = 0" "0 \<le> iteratorQueueBuffer (busOf s)"
      "iteratorWorkerPoolSize (busOf s) < 2 ^ 32" "n = nat (iteratorWorkerPoolSize (busOf s))"
  proof -
    from p(4,5) have "n < nat (2 ^ 32)" by (simp add: nat_mono_iff)
    then have n: "n < 2 ^ 32" by simp
    from l0 p(2) have z: "live s = 0" by simp
    with a g0 p(1,2) have w: "iteratorWorkers (busOf s) = 0" by (simp add: unat_eq_0)
    from sh p(1) have q: "shuttingDown (busOf s) = 0" by simp
    from n have u: "unat (of_nat n :: 32 word) = n" by (simp add: unat_of_nat)
    from z have "live (s\<lparr>pool := pool s @ replicate n WReceive\<rparr>) = n" by (simp add: live_def)
    with restart [OF p(2,3,5), of hdls] z w q u show ?thesis by simp
  qed
  from a b cs ts ss rs ds d e f g h pr de show ?thesis by blast
qed

text \<open>The run up to the first wait on \<^verbatim>\<open>closed\<close>, the run up to the last statement, and
  the initialisation of the bus after the shutdown.\<close>

theorem shutdown_drain_witness:
  "(\<exists>s. run drainRun (start 8 (acceptingAdapter 1)) = Some s
       \<and> apart (start 8 (acceptingAdapter 1)) drainRun
       \<and> sd s = SdRecv \<and> pool s = [WReceive, WReceive]
       \<and> unat (iteratorWorkers (busOf s)) = live s \<and> sentinels s + signalling s = 1 \<and> 0 < live s
       \<and> step StepShutdown s = None)
 \<and> (\<exists>s. run (drainRun @ drainRest) (start 8 (acceptingAdapter 1)) = Some s
       \<and> apart (start 8 (acceptingAdapter 1)) (drainRun @ drainRest)
       \<and> sd s = SdResetShut \<and> pool s = [WExited, WExited] \<and> trace s = [EvIterHandle 1, EvShutdown 1]
       \<and> live s = 0 \<and> iteratorWorkers (busOf s) = 0 \<and> initialized (busOf s) = 0
       \<and> step StepShutdown s = Some (s\<lparr>busOf := (busOf s)\<lparr>shuttingDown := 0\<rparr>, sd := SdIdle\<rparr>))
 \<and> run (drainRun @ drainRest @ [StepShutdown]) (start 8 (acceptingAdapter 1)) = Some drainedSystem
 \<and> apart (start 8 (acceptingAdapter 1)) (drainRun @ drainRest @ [StepShutdown])
 \<and> run (CallInitializeIteratorHandlers [yieldIteratorHandler 1] # replicate 9 (StepInitialize 1))
      drainedSystem =
    Some (drainedSystem\<lparr>busOf := (busOf drainedSystem)\<lparr>initialized := 1,
                 iteratorHandlers := [yieldIteratorHandler 1],
                 iteratorQueryQueue := Chan 100 [], iteratorWorkers := 2\<rparr>,
            pool := [WExited, WExited, WReceive, WReceive],
            inits := [IniDone, IniDone]\<rparr>)"
proof -
  have "\<exists>s. run drainRun (start 8 (acceptingAdapter 1)) = Some s
          \<and> sd s = SdRecv \<and> pool s = [WReceive, WReceive]"
    by (simp add: pool_defs eval_defs)
  then obtain s where s: "run drainRun (start 8 (acceptingAdapter 1)) = Some s"
    "sd s = SdRecv" "pool s = [WReceive, WReceive]" by blast
  have o: "apart (start 8 (acceptingAdapter 1)) drainRun"
    by (simp add: pool_defs eval_defs initialising_def)
  from s(3) have "going s = going s" by simp
  from shutdown_drain [OF s(1) o] s(2) have g: "unat (iteratorWorkers (busOf s)) = live s + going s"
    "sentinels s + signalling s = 1" "0 < live s" "step StepShutdown s = None"
    by simp_all
  have "\<exists>s. run drainRun (start 8 (acceptingAdapter 1)) = Some s \<and> inits s = [IniDone]"
    by (simp add: pool_defs eval_defs)
  with s(1) have "going s = 0" by (auto simp: going_def)
  with g(1) have "unat (iteratorWorkers (busOf s)) = live s" by simp
  with s o g(2-4) have a: "\<exists>s. run drainRun (start 8 (acceptingAdapter 1)) = Some s
       \<and> apart (start 8 (acceptingAdapter 1)) drainRun
       \<and> sd s = SdRecv \<and> pool s = [WReceive, WReceive]
       \<and> unat (iteratorWorkers (busOf s)) = live s \<and> sentinels s + signalling s = 1 \<and> 0 < live s
       \<and> step StepShutdown s = None"
    by blast
  have "\<exists>s. run (drainRun @ drainRest) (start 8 (acceptingAdapter 1)) = Some s
          \<and> sd s = SdResetShut \<and> pool s = [WExited, WExited] \<and> trace s = [EvIterHandle 1, EvShutdown 1]"
    by (simp add: pool_defs eval_defs)
  then obtain t where t: "run (drainRun @ drainRest) (start 8 (acceptingAdapter 1)) = Some t"
    "sd t = SdResetShut" "pool t = [WExited, WExited]" "trace t = [EvIterHandle 1, EvShutdown 1]"
    by blast
  have o': "apart (start 8 (acceptingAdapter 1)) (drainRun @ drainRest)"
    by (simp add: pool_defs eval_defs initialising_def)
  from shutdown_drain [OF t(1) o'] t(2)
  have "live t = 0 \<and> iteratorWorkers (busOf t) = 0 \<and> initialized (busOf t) = 0
       \<and> step StepShutdown t = Some (t\<lparr>busOf := (busOf t)\<lparr>shuttingDown := 0\<rparr>, sd := SdIdle\<rparr>)"
    by simp
  with t o' have b: "\<exists>s. run (drainRun @ drainRest) (start 8 (acceptingAdapter 1)) = Some s
       \<and> apart (start 8 (acceptingAdapter 1)) (drainRun @ drainRest)
       \<and> sd s = SdResetShut \<and> pool s = [WExited, WExited] \<and> trace s = [EvIterHandle 1, EvShutdown 1]
       \<and> live s = 0 \<and> iteratorWorkers (busOf s) = 0 \<and> initialized (busOf s) = 0
       \<and> step StepShutdown s = Some (s\<lparr>busOf := (busOf s)\<lparr>shuttingDown := 0\<rparr>, sd := SdIdle\<rparr>)"
    by blast
  have i: "sd drainedSystem = SdIdle \<and> initialized (busOf drainedSystem) = 0
       \<and> 0 \<le> iteratorQueueBuffer (busOf drainedSystem)
       \<and> iteratorWorkerPoolSize (busOf drainedSystem) < 2 ^ 32
       \<and> 2 = nat (iteratorWorkerPoolSize (busOf drainedSystem))"
    by (simp add: eval_defs)
  from shutdown_drain [OF drainedSystem_reached drainedSystem_apart,
      where hdls = "[yieldIteratorHandler 1]" and n = 2] i
  have "run (CallInitializeIteratorHandlers [yieldIteratorHandler 1]
              # replicate (3 * 2 + 3) (StepInitialize (length (inits drainedSystem)))) drainedSystem =
        Some (drainedSystem\<lparr>busOf := (busOf drainedSystem)\<lparr>initialized := 1,
                 iteratorHandlers := [yieldIteratorHandler 1],
                 iteratorQueryQueue := Chan (iteratorQueueBuffer (busOf drainedSystem)) [],
                 iteratorWorkers := of_nat 2\<rparr>,
            pool := pool drainedSystem @ replicate 2 WReceive,
            inits := inits drainedSystem @ [IniDone]\<rparr>)"
    by blast
  then have c: "run (CallInitializeIteratorHandlers [yieldIteratorHandler 1]
                   # replicate 9 (StepInitialize 1)) drainedSystem =
    Some (drainedSystem\<lparr>busOf := (busOf drainedSystem)\<lparr>initialized := 1,
                 iteratorHandlers := [yieldIteratorHandler 1],
                 iteratorQueryQueue := Chan 100 [], iteratorWorkers := 2\<rparr>,
            pool := [WExited, WExited, WReceive, WReceive],
            inits := [IniDone, IniDone]\<rparr>)"
    by (simp add: drainedSystem_def NewBus_def numeral_2_eq_2)
  from a b c drainedSystem_reached drainedSystem_apart show ?thesis by blast
qed

text \<open>C6 as stated fails: \<^verbatim>\<open>Shutdown\<close> is called on a bus that is not initialised,
  \<^verbatim>\<open>shutdown\<close> finds the counter at zero and leaves its loop, and
  \<^verbatim>\<open>InitializeIteratorHandlers\<close> then starts two workers; \<^verbatim>\<open>shutdown\<close> goes on to shut
  the cache adapter down and to reset both flags while the two workers are running,
  and neither of them was sent a \<^verbatim>\<open>nil\<close>.\<close>

theorem shutdown_overtaken_by_initialisation:
  "run raceRun (start 8 (acceptingAdapter 1)) = Some racingSystem
 \<and> sd racingSystem = SdAdapters \<and> pool racingSystem = [WReceive, WReceive]
 \<and> live racingSystem = 2 \<and> trace racingSystem = []
 \<and> run [StepShutdown, StepShutdown, StepShutdown] racingSystem = Some racedSystem
 \<and> sd racedSystem = SdIdle \<and> trace racedSystem = [EvShutdown 1]
 \<and> pool racedSystem = [WReceive, WReceive] \<and> live racedSystem = 2
 \<and> initialized (busOf racedSystem) = 0 \<and> shuttingDown (busOf racedSystem) = 0
 \<and> iteratorWorkers (busOf racedSystem) = 2"
  by (simp add: pool_defs eval_defs live_def)

section \<open>Streaming queries and the state of the bus\<close>




section \<open>Calling Shutdown again\<close>

text \<open>
  C4, as amended.  A call of \<^verbatim>\<open>Shutdown\<close> while \<^verbatim>\<open>shuttingDown\<close> is set, which is the case
  in every run as long as a shutdown executes, loses the compare-and-swap: it changes
  nothing and returns at once, so only the first caller drains.  Once a shutdown has
  completed, on a bus that has not been initialised again since, and provided that no
  execution of \<^verbatim>\<open>InitializeIteratorHandlers\<close> has overlapped an execution of
  \<^verbatim>\<open>shutdown\<close> and that the pool size fits the 32-bit counter, the bus is idle with both
  flags and the counter at 0 and no worker left; a call of \<^verbatim>\<open>Shutdown\<close> then wins the
  compare-and-swap and executes \<^verbatim>\<open>shutdown\<close> again: it finds no worker, neither pushes
  nor waits, ends after four statements, and leaves the bus as it was, except that it
  calls \<^verbatim>\<open>Shutdown\<close> on every cache adapter once more.
\<close>

theorem Shutdown_again:
  "(shuttingDown (busOf s) \<noteq> 0 \<longrightarrow> step CallShutdown s = Some s)
 \<and> (run acts (start procs mem) = Some s \<and> sd s \<noteq> SdIdle
      \<longrightarrow> step CallShutdown s = Some s)
 \<and> (run acts (start procs mem) = Some s \<and> apart (start procs mem) acts \<and> sd s = SdIdle
        \<and> initialized (busOf s) = 0
      \<longrightarrow> shuttingDown (busOf s) = 0 \<and> iteratorWorkers (busOf s) = 0 \<and> live s = 0
          \<and> run [CallShutdown, StepShutdown, StepShutdown, StepShutdown, StepShutdown] s =
              Some (s\<lparr>trace := trace s @ map (\<lambda>adp. EvShutdown (adp_id adp)) (cacheAdapters (busOf s))\<rparr>))"
proof -
  have a: "shuttingDown (busOf s) \<noteq> 0 \<longrightarrow> step CallShutdown s = Some s"
    by (simp add: Shutdown_def CompareAndSwapUint32_def)
  have b: "step CallShutdown s = Some s"
    if p: "run acts (start procs mem) = Some s" "sd s \<noteq> SdIdle"
  proof -
    from shutting_reached [OF p(1)] p(2) have "shuttingDown (busOf s) = 1" by simp
    then show ?thesis by (simp add: Shutdown_def CompareAndSwapUint32_def)
  qed
  have c: "shuttingDown (busOf s) = 0 \<and> iteratorWorkers (busOf s) = 0 \<and> live s = 0
          \<and> run [CallShutdown, StepShutdown, StepShutdown, StepShutdown, StepShutdown] s =
              Some (s\<lparr>trace := trace s @ map (\<lambda>adp. EvShutdown (adp_id adp)) (cacheAdapters (busOf s))\<rparr>)"
    if p: "run acts (start procs mem) = Some s" "apart (start procs mem) acts" "sd s = SdIdle"
      "initialized (busOf s) = 0"
  proof -
    from inv_reached [OF p(1,2)] have inv: "drain_inv s" .
    from inv p(4) have "initialising s = 0" by (auto simp: drain_inv_def)
    from none_going [OF this] inv p(3,4)
    have q: "shuttingDown (busOf s) = 0" "unat (iteratorWorkers (busOf s)) = 0" "live s = 0"
      by (simp_all add: drain_inv_def)
    then have w: "iteratorWorkers (busOf s) = 0" by (simp add: unat_eq_0)
    have e: "(busOf s)\<lparr>shuttingDown := 0\<rparr> = busOf s" using q(1) by simp
    have f: "s\<lparr>sd := SdIdle\<rparr> = s" using p(3) by simp
    have "run [CallShutdown, StepShutdown, StepShutdown, StepShutdown, StepShutdown] s =
           Some (s\<lparr>trace := trace s @ map (\<lambda>adp. EvShutdown (adp_id adp)) (cacheAdapters (busOf s))\<rparr>)"
      using p(3,4) q(1) w by (simp add: Shutdown_def shutdown_at CompareAndSwapUint32_def e f)
    with q w show ?thesis by simp
  qed
  from a b c show ?thesis by blast
qed

text \<open>A call during the drain, and a call after the shutdown.\<close>

theorem Shutdown_again_witness:
  "step CallShutdown (drainedSystem\<lparr>busOf := (busOf drainedSystem)\<lparr>shuttingDown := 1\<rparr>, sd := SdRecv\<rparr>) =
     Some (drainedSystem\<lparr>busOf := (busOf drainedSystem)\<lparr>shuttingDown := 1\<rparr>, sd := SdRecv\<rparr>)
 \<and> (\<exists>s. run drainRun (start 8 (acceptingAdapter 1)) = Some s \<and> sd s = SdRecv
        \<and> step CallShutdown s = Some s)
 \<and> run (drainRun @ drainRest @ [StepShutdown]) (start 8 (acceptingAdapter 1)) = Some drainedSystem
 \<and> apart (start 8 (acceptingAdapter 1)) (drainRun @ drainRest @ [StepShutdown])
 \<and> shuttingDown (busOf drainedSystem) = 0 \<and> iteratorWorkers (busOf drainedSystem) = 0
 \<and> live drainedSystem = 0
 \<and> run [CallShutdown, StepShutdown, StepShutdown, StepShutdown, StepShutdown] drainedSystem =
     Some (drainedSystem\<lparr>trace := [EvIterHandle 1, EvShutdown 1, EvShutdown 1]\<rparr>)"
proof -
  have a: "step CallShutdown (drainedSystem\<lparr>busOf := (busOf drainedSystem)\<lparr>shuttingDown := 1\<rparr>, sd := SdRecv\<rparr>) =
     Some (drainedSystem\<lparr>busOf := (busOf drainedSystem)\<lparr>shuttingDown := 1\<rparr>, sd := SdRecv\<rparr>)"
    using Shutdown_again [where s = "drainedSystem\<lparr>busOf := (busOf drainedSystem)\<lparr>shuttingDown := 1\<rparr>, sd := SdRecv\<rparr>",
        THEN conjunct1]
    by simp
  have "\<exists>s. run drainRun (start 8 (acceptingAdapter 1)) = Some s \<and> sd s = SdRecv"
    by (simp add: pool_defs eval_defs)
  then obtain s where s: "run drainRun (start 8 (acceptingAdapter 1)) = Some s" "sd s = SdRecv"
    by blast
  from Shutdown_again [where acts = drainRun and procs = 8 and mem = "acceptingAdapter 1" and s = s,
      THEN conjunct2, THEN conjunct1] s
  have "step CallShutdown s = Some s" by simp
  with s have b: "\<exists>s. run drainRun (start 8 (acceptingAdapter 1)) = Some s \<and> sd s = SdRecv
        \<and> step CallShutdown s = Some s"
    by blast
  have i: "sd drainedSystem = SdIdle" "initialized (busOf drainedSystem) = 0"
    by (simp_all add: eval_defs)
  from Shutdown_again [where acts = "drainRun @ drainRest @ [StepShutdown]" and procs = 8
      and mem = "acceptingAdapter 1" and s = drainedSystem,
      THEN conjunct2, THEN conjunct2] drainedSystem_reached drainedSystem_apart i
  have c: "shuttingDown (busOf drainedSystem) = 0 \<and> iteratorWorkers (busOf drainedSystem) = 0
     \<and> live drainedSystem = 0
     \<and> run [CallShutdown, StepShutdown, StepShutdown, StepShutdown, StepShutdown] drainedSystem =
         Some (drainedSystem\<lparr>trace := trace drainedSystem
                 @ map (\<lambda>adp. EvShutdown (adp_id adp)) (cacheAdapters (busOf drainedSystem))\<rparr>)"
    by blast
  then have d: "run [CallShutdown, StepShutdown, StepShutdown, StepShutdown, StepShutdown] drainedSystem =
     Some (drainedSystem\<lparr>trace := [EvIterHandle 1, EvShutdown 1, EvShutdown 1]\<rparr>)"
    by (simp add: eval_defs)
  from a b c d drainedSystem_reached drainedSystem_apart show ?thesis by blast
qed

text \<open>C4 as stated fails: a second call after the first shutdown has completed shuts the
  cache adapter down a second time.\<close>

theorem Shutdown_twice_shuts_adapters_twice:
  "run (drainRun @ drainRest @ [StepShutdown]) (start 8 (acceptingAdapter 1)) = Some drainedSystem
 \<and> trace drainedSystem = [EvIterHandle 1, EvShutdown 1]
 \<and> run [CallShutdown, StepShutdown, StepShutdown, StepShutdown, StepShutdown] drainedSystem =
     Some (drainedSystem\<lparr>trace := [EvIterHandle 1, EvShutdown 1, EvShutdown 1]\<rparr>)"
proof -
  have "run [CallShutdown, StepShutdown, StepShutdown, StepShutdown, StepShutdown] drainedSystem =
     Some (drainedSystem\<lparr>trace := [EvIterHandle 1, EvShutdown 1, EvShutdown 1]\<rparr>)"
    by (simp add: pool_defs eval_defs)
  with drainedSystem_reached show ?thesis by (simp add: eval_defs)
qed

end
